theory Spec2Isabelle
  imports
    Main
    "HOL-Library.AList"
    "HOL-Library.Char_ord"
    "HOL-Library.List_Lexorder"
    "HOL-Library.Product_Lexorder"
begin

section \<open>The redirect table engine of yari, embedded in HOL\<close>

text \<open>
  The redirect module (the second document of \<^verbatim>\<open>src/client/src/flaws/index.tsx\<close>,
  from \<^verbatim>\<open>const fs = require("fs")\<close> on) is translated function by function.

  \<^item> A JavaScript string is a \<^typ>\<open>string\<close>: a list of 8-bit characters, read as the
    UTF-16 code units below 256 (Latin-1). Comparison of strings (\<^verbatim>\<open><\<close>, \<^verbatim>\<open>>\<close>) is
    the lexicographic order on code units, which is the order of \<^typ>\<open>string\<close> here.
  \<^item> \<^verbatim>\<open>undefined\<close> is \<^term>\<open>None\<close>: a value that may be undefined is a
    \<^typ>\<open>string option\<close>.
  \<^item> A \<^verbatim>\<open>Map\<close> is an association list with distinct keys in insertion order;
    \<^verbatim>\<open>set\<close> on a key that is present replaces the value and keeps the position.
  \<^item> A \<^verbatim>\<open>throw\<close> is a result \<open>Inl e\<close>; \<^verbatim>\<open>console.log\<close> of \<^verbatim>\<open>shortCuts\<close>
    appends to a list of messages that is returned with the value.
\<close>

subsection \<open>Strings\<close>

definition toLowerCase_char :: "char \<Rightarrow> char" where
  "toLowerCase_char c =
     (let n = (of_char c :: nat) in
      if (65 \<le> n \<and> n \<le> 90) \<or> (192 \<le> n \<and> n \<le> 222 \<and> n \<noteq> 215)
      then char_of (n + 32) else c)"

definition toLowerCase :: "string \<Rightarrow> string" where
  "toLowerCase s = map toLowerCase_char s"

text \<open>\<^verbatim>\<open>if (x)\<close> on a value that is a string or undefined: undefined and the empty
  string are falsy.\<close>

definition truthy :: "string option \<Rightarrow> bool" where
  "truthy v = (case v of None \<Rightarrow> False | Some s \<Rightarrow> s \<noteq> [])"

subsection \<open>Map\<close>

type_synonym ('k, 'v) js_map = "('k \<times> 'v) list"

definition Map_set :: "('k, 'v) js_map \<Rightarrow> 'k \<Rightarrow> 'v \<Rightarrow> ('k, 'v) js_map" where
  "Map_set m k v = AList.update k v m"

definition Map_get :: "('k, 'v) js_map \<Rightarrow> 'k \<Rightarrow> 'v option" where
  "Map_get m k = map_of m k"

text \<open>\<^verbatim>\<open>new Map(entries)\<close>: the entries are set one after the other.\<close>

definition new_Map :: "('k \<times> 'v) list \<Rightarrow> ('k, 'v) js_map" where
  "new_Map entries = foldl (\<lambda>m (k, v). Map_set m k v) [] entries"

subsection \<open>Errors\<close>

text \<open>One constructor for each \<^verbatim>\<open>throw\<close> of the module, carrying what the message
  interpolates; \<open>TypeError\<close> is the runtime's error on a method call on undefined, and
  \<open>External\<close> an error thrown by a collaborator that is not part of the module
  (\<^verbatim>\<open>new URL\<close>, \<^verbatim>\<open>decodeURI\<close>, \<^verbatim>\<open>decodePath\<close>, \<^verbatim>\<open>readFileSync\<close>).\<close>

datatype error =
    From_must_start_with_slash string
  | From_must_contain_docs string
  | Locale_prefix_not_valid string
  | Invalid_character char
  | From_resolves_to_file string string
  | Already_a_redirect string string
  | Only_https
  | To_must_resolve_to_file string
  | To_must_be_external_or_slash string
  | Expected_locale_docs string
  | Locale_not_in_valid string
  | From_must_be_decoded string
  | To_must_be_decoded string
  | Duplicated_redirect string
  | Redirect_cycle "string list" string
  | Translated_root_not_set string
  | Flawed string
  | TypeError
  | External string

subsection \<open>shortCuts\<close>

type_synonym pair = "string \<times> string"

text \<open>What one call of \<^verbatim>\<open>transit\<close> does: it throws the cycle message, or logs it and
  returns \<^verbatim>\<open>[]\<close>, or returns \<^verbatim>\<open>[froms, s]\<close>. The message
  \<^verbatim>\<open>redirect cycle [${froms.join(", ")}] -> ${next}\<close> is kept as its two parts.\<close>

datatype transit_result =
    Thrown error
  | Logged error
  | Walked "string list" string

function transit ::
  "(string, string) js_map \<Rightarrow> bool \<Rightarrow> string \<Rightarrow> string list \<Rightarrow> transit_result"
where
  "transit dg throws s froms =
     (let next = Map_get dg s in
      if truthy next then
        (let froms' = froms @ [s] in
         if the next \<in> set froms' then
           (let msg = Redirect_cycle froms' (the next) in
            if throws then Thrown msg else Logged msg)
         else transit dg throws (the next) froms')
      else Walked froms s)"
  by pat_completeness auto
termination
proof (relation "measure (\<lambda>(dg, throws, s, froms).
         if s \<in> fst ` set dg then Suc (card (fst ` set dg - set froms - {s})) else 0)")
  show "wf (measure (\<lambda>(dg, throws, s, froms).
         if s \<in> fst ` set dg then Suc (card (fst ` set dg - set froms - {s})) else 0))"
    by simp
next
  fix dg :: "(string, string) js_map" and throws :: bool and s :: string
    and froms :: "string list" and "next" froms'
  assume n: "next = Map_get dg s" and t: "truthy next" and f: "froms' = froms @ [s]"
    and notin: "the next \<notin> set froms'"
  from n t obtain x where x: "map_of dg s = Some x"
    by (auto simp: truthy_def Map_get_def split: option.splits)
  then have sk: "s \<in> fst ` set dg"
    by (metis map_of_eq_None_iff option.distinct(1))
  let ?K = "fst ` set dg"
  have nx: "the next = x" using n x by (simp add: Map_get_def)
  show "((dg, throws, the next, froms'), (dg, throws, s, froms))
        \<in> measure (\<lambda>(dg, throws, s, froms).
             if s \<in> fst ` set dg then Suc (card (fst ` set dg - set froms - {s})) else 0)"
  proof (cases "x \<in> ?K")
    case False
    then show ?thesis using sk nx by simp
  next
    case True
    have fin: "finite (?K - set froms - {s})" by simp
    have mem: "x \<in> ?K - set froms - {s}" using True notin nx f by auto
    have eq: "?K - set froms' - {x} = (?K - set froms - {s}) - {x}" using f by auto
    have "card ((?K - set froms - {s}) - {x}) < card (?K - set froms - {s})"
      using fin mem by (rule card_Diff1_less)
    then have "card (?K - set froms' - {x}) < card (?K - set froms - {s})"
      by (simp only: eq)
    then show ?thesis using sk nx True by simp
  qed
qed

declare transit.simps [simp del]

text \<open>The comparisons of \<^verbatim>\<open>sortTuples\<close> on values that may be undefined: a comparison
  with undefined is false.\<close>

definition js_gt :: "string option \<Rightarrow> string option \<Rightarrow> bool" where
  "js_gt a c = (case (a, c) of (Some x, Some y) \<Rightarrow> x > y | _ \<Rightarrow> False)"

definition js_lt :: "string option \<Rightarrow> string option \<Rightarrow> bool" where
  "js_lt a c = (case (a, c) of (Some x, Some y) \<Rightarrow> x < y | _ \<Rightarrow> False)"

type_synonym restored_pair = "string option \<times> string option"

definition sortTuples :: "restored_pair \<Rightarrow> restored_pair \<Rightarrow> int" where
  "sortTuples p q =
     (case p of (a, b) \<Rightarrow> case q of (c, d) \<Rightarrow>
        if js_gt a c then 1
        else if js_lt a c then - 1
        else if js_gt b d then 1
        else if js_lt b d then - 1
        else 0)"

text \<open>\<^verbatim>\<open>Array.prototype.sort(compare)\<close> is a stable sort: insertion sort, an element
  staying before the elements it does not compare greater than.\<close>

fun sort_insert :: "('a \<Rightarrow> 'a \<Rightarrow> int) \<Rightarrow> 'a \<Rightarrow> 'a list \<Rightarrow> 'a list" where
  "sort_insert compare x [] = [x]"
| "sort_insert compare x (y # ys) =
     (if compare x y \<le> 0 then x # y # ys else y # sort_insert compare x ys)"

definition Array_sort :: "('a \<Rightarrow> 'a \<Rightarrow> int) \<Rightarrow> 'a list \<Rightarrow> 'a list" where
  "Array_sort compare xs = foldr (sort_insert compare) xs []"

text \<open>The constants of \<^verbatim>\<open>shortCuts\<close>.\<close>

definition casing :: "pair list \<Rightarrow> (string, string) js_map" where
  "casing pairs =
     new_Map (map (\<lambda>(from, to). (toLowerCase from, from)) pairs
            @ map (\<lambda>(from, to). (toLowerCase to, to)) pairs)"

definition lowerCasePairs :: "pair list \<Rightarrow> pair list" where
  "lowerCasePairs pairs = map (\<lambda>(from, to). (toLowerCase from, toLowerCase to)) pairs"

definition dg :: "pair list \<Rightarrow> (string, string) js_map" where
  "dg pairs = new_Map (lowerCasePairs pairs)"

text \<open>The loop over \<^verbatim>\<open>lowerCasePairs\<close>; the state is \<^verbatim>\<open>transitiveDag\<close> and the
  console. \<^verbatim>\<open>const [froms = [], to] = []\<close> leaves no node to set.\<close>

fun set_all :: "(string, string) js_map \<Rightarrow> string list \<Rightarrow> string \<Rightarrow> (string, string) js_map" where
  "set_all transitiveDag [] to = transitiveDag"
| "set_all transitiveDag (from # froms) to = set_all (Map_set transitiveDag from to) froms to"

fun walks ::
  "(string, string) js_map \<Rightarrow> bool \<Rightarrow> pair list \<Rightarrow>
   (string, string) js_map \<times> error list \<Rightarrow> error + (string, string) js_map \<times> error list"
where
  "walks g throws [] st = Inr st"
| "walks g throws ((from, uu) # rest) (transitiveDag, console) =
     (case transit g throws from [] of
        Thrown msg \<Rightarrow> Inl msg
      | Logged msg \<Rightarrow> walks g throws rest (transitiveDag, console @ [msg])
      | Walked froms to \<Rightarrow> walks g throws rest (set_all transitiveDag froms to, console))"

definition mappedPairs :: "pair list \<Rightarrow> pair list \<Rightarrow> restored_pair list" where
  "mappedPairs pairs transitivePairs =
     map (\<lambda>(from, to). (Map_get (casing pairs) from, Map_get (casing pairs) to)) transitivePairs"

text \<open>\<^verbatim>\<open>shortCuts(pairs, throws)\<close> with what it wrote to the console.\<close>

definition shortCuts_console :: "pair list \<Rightarrow> bool \<Rightarrow> error + restored_pair list \<times> error list" where
  "shortCuts_console pairs throws =
     (case walks (dg pairs) throws (lowerCasePairs pairs) ([], []) of
        Inl e \<Rightarrow> Inl e
      | Inr (transitiveDag, console) \<Rightarrow>
          Inr (Array_sort sortTuples (mappedPairs pairs transitiveDag), console))"

definition shortCuts :: "pair list \<Rightarrow> bool \<Rightarrow> error + restored_pair list" where
  "shortCuts pairs throws = map_sum id fst (shortCuts_console pairs throws)"

subsection \<open>Notions used to state the properties of shortCuts\<close>

text \<open>\<open>chain g s p t\<close>: following the edges of \<open>g\<close> from \<open>s\<close> visits the nodes \<open>p\<close>, each with
  a truthy target, and ends at \<open>t\<close>, which has none.\<close>

inductive chain :: "(string, string) js_map \<Rightarrow> string \<Rightarrow> string list \<Rightarrow> string \<Rightarrow> bool"
  for g :: "(string, string) js_map"
where
  chain_end: "\<not> truthy (Map_get g s) \<Longrightarrow> chain g s [] s"
| chain_step: "truthy (Map_get g s) \<Longrightarrow> Map_get g s = Some n \<Longrightarrow> chain g n p t
     \<Longrightarrow> chain g s (s # p) t"

code_pred (modes: i \<Rightarrow> i \<Rightarrow> o \<Rightarrow> o \<Rightarrow> bool, i \<Rightarrow> i \<Rightarrow> i \<Rightarrow> i \<Rightarrow> bool) chain .

text \<open>Every edge of a partly built \<^verbatim>\<open>transitiveDag\<close> leads to the end of its chain.\<close>

definition settled :: "(string, string) js_map \<Rightarrow> (string, string) js_map \<Rightarrow> bool" where
  "settled g td \<longleftrightarrow> (\<forall>k v. map_of td k = Some v \<longrightarrow> (\<exists>p. chain g k p v \<and> p \<noteq> []))"

text \<open>The URLs in the order in which \<^verbatim>\<open>casing\<close> is built: all sources, then all
  targets.\<close>

definition occurrences :: "pair list \<Rightarrow> string list" where
  "occurrences pairs = map fst pairs @ map snd pairs"

text \<open>The casing of a lowercased URL by its first occurrence, as the specification
  words it, and by its last occurrence.\<close>

definition first_seen :: "pair list \<Rightarrow> string \<Rightarrow> string option" where
  "first_seen pairs k = find (\<lambda>u. toLowerCase u = k) (occurrences pairs)"

definition last_seen :: "pair list \<Rightarrow> string \<Rightarrow> string option" where
  "last_seen pairs k = find (\<lambda>u. toLowerCase u = k) (rev (occurrences pairs))"

subsection \<open>removeConflictingOldRedirects\<close>

text \<open>The \<^verbatim>\<open>console.log\<close> of each removed pair is not part of the value.\<close>

definition removeConflictingOldRedirects :: "pair list \<Rightarrow> pair list \<Rightarrow> pair list" where
  "removeConflictingOldRedirects oldPairs updatePairs =
     (if length oldPairs = 0 then oldPairs
      else
        (let newTargets = set (map (\<lambda>(from, to). toLowerCase to) updatePairs) in
         filter (\<lambda>(from, to).
                   (let conflictingTo = toLowerCase from \<in> newTargets in \<not> conflictingTo))
           oldPairs))"

subsection \<open>More strings\<close>

abbreviation TAB :: char where "TAB \<equiv> CHR 0x09"
abbreviation LF :: char where "LF \<equiv> CHR 0x0A"

definition startsWith :: "string \<Rightarrow> string \<Rightarrow> bool" where
  "startsWith s p = (take (length p) s = p)"

text \<open>\<^verbatim>\<open>s.includes(sub)\<close>\<close>

fun js_includes :: "string \<Rightarrow> string \<Rightarrow> bool" where
  "js_includes [] sub = (sub = [])"
| "js_includes (x # xs) sub = (startsWith (x # xs) sub \<or> js_includes xs sub)"

text \<open>\<^verbatim>\<open>s.split(c)\<close> for a separator of one character.\<close>

fun split_on :: "char \<Rightarrow> string \<Rightarrow> string list" where
  "split_on c [] = [[]]"
| "split_on c (x # xs) =
     (if x = c then [] # split_on c xs
      else (case split_on c xs of [] \<Rightarrow> [[x]] | y # ys \<Rightarrow> (x # y) # ys))"

text \<open>\<^verbatim>\<open>s.split(/\t+/)\<close>: a run of tabs is one separator.\<close>

function split_tabs :: "string \<Rightarrow> string list" where
  "split_tabs [] = [[]]"
| "split_tabs (x # xs) =
     (if x = TAB then [] # split_tabs (dropWhile (\<lambda>c. c = TAB) xs)
      else (case split_tabs xs of [] \<Rightarrow> [[x]] | y # ys \<Rightarrow> (x # y) # ys))"
  by pat_completeness auto
termination
  by (relation "measure length") (auto simp: length_dropWhile_le le_imp_less_Suc)

text \<open>\<^verbatim>\<open>Array.prototype.join\<close>.\<close>

fun join :: "string \<Rightarrow> string list \<Rightarrow> string" where
  "join sep [] = []"
| "join sep [x] = x"
| "join sep (x # y # ys) = x @ sep @ join sep (y # ys)"

text \<open>The white space and line terminators that \<^verbatim>\<open>trim\<close> strips, among the code units
  below 256: tab, line feed, vertical tab, form feed, carriage return, space and
  no-break space.\<close>

definition is_space :: "char \<Rightarrow> bool" where
  "is_space c = (of_char c \<in> {9, 10, 11, 12, 13, 32, 160 :: nat})"

definition trim :: "string \<Rightarrow> string" where
  "trim s = rev (dropWhile is_space (rev (dropWhile is_space s)))"

subsection \<open>What the module takes from outside\<close>

text \<open>
  The constants of \<^verbatim>\<open>./constants\<close>, the functions of \<^verbatim>\<open>../libs/slug-utils\<close>,
  \<^verbatim>\<open>../libs/fundamental-redirects\<close> and \<^verbatim>\<open>./archive\<close>, and Node's \<^verbatim>\<open>path.join\<close>,
  \<^verbatim>\<open>new URL(url).protocol\<close> and \<^verbatim>\<open>decodeURI\<close> are not part of the module: they are
  fields of an environment. The file system is a map from paths to contents;
  \<^verbatim>\<open>redirects\<close> is the module-level cache as \<^verbatim>\<open>load()\<close> has filled it.
\<close>

record env =
  VALID_LOCALES :: "(string, string) js_map"
  CONTENT_ROOT :: "string option"
  CONTENT_TRANSLATED_ROOT :: "string option"
  slugToFolder :: "string \<Rightarrow> string"
  isArchivedFilePath :: "string \<Rightarrow> bool"
  decodePath :: "string \<Rightarrow> error + string"
  decodeURI :: "string \<Rightarrow> error + string"
  URL_protocol :: "string \<Rightarrow> error + string"
  path_join :: "string list \<Rightarrow> string"
  resolveFundamental_url :: "string \<Rightarrow> string option"
  files :: "string \<Rightarrow> string option"
  redirects :: "(string, string) js_map"

definition existsSync :: "env \<Rightarrow> string \<Rightarrow> bool" where
  "existsSync E p = (files E p \<noteq> None)"

definition readFileSync :: "env \<Rightarrow> string \<Rightarrow> error + string" where
  "readFileSync E p = (case files E p of None \<Rightarrow> Inl (External ''ENOENT'') | Some content \<Rightarrow> Inr content)"

text \<open>\<^verbatim>\<open>[...VALID_LOCALES.values()]\<close>\<close>

definition valid_locale_values :: "env \<Rightarrow> string list" where
  "valid_locale_values E = map snd (VALID_LOCALES E)"

subsection \<open>Validation\<close>

definition FORBIDDEN_URL_SYMBOLS :: "char list" where
  "FORBIDDEN_URL_SYMBOLS = [LF, TAB]"

fun checkURLInvalidSymbols_loop :: "char list \<Rightarrow> string \<Rightarrow> error + unit" where
  "checkURLInvalidSymbols_loop [] url = Inr ()"
| "checkURLInvalidSymbols_loop (character # rest) url =
     (if js_includes url [character] then Inl (Invalid_character character)
      else checkURLInvalidSymbols_loop rest url)"

definition checkURLInvalidSymbols :: "string \<Rightarrow> error + unit" where
  "checkURLInvalidSymbols url = checkURLInvalidSymbols_loop FORBIDDEN_URL_SYMBOLS url"

definition isVanityRedirectURL :: "env \<Rightarrow> string \<Rightarrow> bool" where
  "isVanityRedirectURL E url =
     (let localeUrls = set (map (\<lambda>l. ''/'' @ l @ ''/'') (valid_locale_values E))
      in url \<in> localeUrls)"

text \<open>An element of an array that may be missing.\<close>

definition field :: "'a list \<Rightarrow> nat \<Rightarrow> 'a option" where
  "field xs i = (if i < length xs then Some (xs ! i) else None)"

text \<open>\<^verbatim>\<open>resolveDocumentPath\<close> returns a string or \<^verbatim>\<open>null\<close> (\<open>None\<close>); \<^verbatim>\<open>path.join\<close> throws a
  TypeError on an undefined argument. The \<^verbatim>\<open>console.log\<close> is not part of the value.\<close>

definition resolveDocumentPath :: "env \<Rightarrow> string \<Rightarrow> error + string option" where
  "resolveDocumentPath E url =
     (if isVanityRedirectURL E url then Inr (Some url)
      else
        (let bareURL = hd (split_on CHR ''#'' url);
             parts = split_on CHR ''/'' (toLowerCase bareURL);
             locale = field parts 1;
             slug = drop 3 parts
         in case locale of
              None \<Rightarrow> Inl TypeError
            | Some locale \<Rightarrow>
               (let relativeFilePath =
                      path_join E [locale, slugToFolder E (join ''/'' slug), ''index.html'']
                in if isArchivedFilePath E relativeFilePath
                   then Inr (Some (''$ARCHIVED/'' @ relativeFilePath))
                   else
                     (let root = (if locale = ''en-us'' then CONTENT_ROOT E
                                  else CONTENT_TRANSLATED_ROOT E)
                      in if \<not> truthy root then Inr (Some (''$TRANSLATED/'' @ relativeFilePath))
                         else
                           (let filePath = path_join E [the root, relativeFilePath]
                            in if existsSync E filePath then Inr (Some filePath)
                               else Inr None)))))"

definition validateURLLocale :: "env \<Rightarrow> string \<Rightarrow> error + unit" where
  "validateURLLocale E url =
     (let parts = split_on CHR ''/'' url;
          nothing = field parts 0; locale = field parts 1; docs = field parts 2
      in if truthy nothing \<or> \<not> truthy locale \<or> docs \<noteq> Some ''docs''
         then Inl (Expected_locale_docs url)
         else
           (let validValues = valid_locale_values E
            in if the locale \<notin> set validValues then Inl (Locale_not_in_valid (the locale))
               else Inr ()))"

text \<open>\<^verbatim>\<open>resolve\<close> looks the URL up in the cache; the call of \<^verbatim>\<open>load()\<close> that fills an empty
  cache first is not modelled: the cache is the one of the environment.\<close>

definition resolve :: "env \<Rightarrow> string \<Rightarrow> error + string" where
  "resolve E url =
     (let fundamentalOrUrl =
            (if truthy (resolveFundamental_url E url) then the (resolveFundamental_url E url)
             else url)
      in case decodePath E fundamentalOrUrl of
           Inl e \<Rightarrow> Inl e
         | Inr decoded \<Rightarrow>
            (let hit = Map_get (redirects E) (toLowerCase decoded)
             in if truthy hit then Inr (the hit) else Inr fundamentalOrUrl))"

definition validateFromURL :: "env \<Rightarrow> string \<Rightarrow> bool \<Rightarrow> error + unit" where
  "validateFromURL E url checkResolve =
     (if \<not> startsWith url ''/'' then Inl (From_must_start_with_slash url)
      else if \<not> js_includes url ''/docs/'' then Inl (From_must_contain_docs url)
      else if field (split_on CHR ''/'' url) 1 \<notin> Some ` set (valid_locale_values E)
        then Inl (Locale_prefix_not_valid url)
      else case checkURLInvalidSymbols url of Inl e \<Rightarrow> Inl e | Inr u1 \<Rightarrow>
        (case validateURLLocale E url of Inl e \<Rightarrow> Inl e | Inr u2 \<Rightarrow>
        (case resolveDocumentPath E url of Inl e \<Rightarrow> Inl e | Inr path \<Rightarrow>
           if truthy path then Inl (From_resolves_to_file url (the path))
           else if checkResolve then
             (case resolve E url of Inl e \<Rightarrow> Inl e | Inr resolved \<Rightarrow>
                if resolved \<noteq> url then Inl (Already_a_redirect url resolved) else Inr ())
           else Inr ())))"

definition validateToURL :: "env \<Rightarrow> string \<Rightarrow> bool \<Rightarrow> bool \<Rightarrow> error + unit" where
  "validateToURL E url checkResolve checkPath =
     (if isVanityRedirectURL E url then Inr ()
      else if js_includes url ''://'' then
        (case URL_protocol E url of Inl e \<Rightarrow> Inl e | Inr protocol \<Rightarrow>
           if protocol \<noteq> ''https:'' then Inl Only_https else Inr ())
      else if startsWith url ''/'' then
        (case checkURLInvalidSymbols url of Inl e \<Rightarrow> Inl e | Inr u1 \<Rightarrow>
        (case validateURLLocale E url of Inl e \<Rightarrow> Inl e | Inr u2 \<Rightarrow>
        (case (if checkResolve then
                 (case resolve E url of Inl e \<Rightarrow> Inl e | Inr resolved \<Rightarrow>
                    if resolved \<noteq> url then Inl (Already_a_redirect url resolved) else Inr ())
               else Inr ()) of Inl e \<Rightarrow> Inl e | Inr u3 \<Rightarrow>
           if checkPath then
             (case resolveDocumentPath E url of Inl e \<Rightarrow> Inl e | Inr path \<Rightarrow>
                if \<not> truthy path then Inl (To_must_resolve_to_file url) else Inr ())
           else Inr ())))
      else Inl (To_must_be_external_or_slash url))"

subsection \<open>Rows of a table\<close>

text \<open>A line of the file, split at tabs, is an array of strings; \<^verbatim>\<open>[from, to]\<close> takes its
  first two elements, each undefined when missing. A method called on undefined throws a
  TypeError.\<close>

type_synonym row = "string list"

definition row_of_pair :: "pair \<Rightarrow> row" where
  "row_of_pair p = [fst p, snd p]"

definition pair_of_row :: "row \<Rightarrow> pair option" where
  "pair_of_row r = (case r of from # to # rest \<Rightarrow> Some (from, to) | _ \<Rightarrow> None)"

definition decodePair :: "env \<Rightarrow> row \<Rightarrow> error + string \<times> string" where
  "decodePair E r =
     (case field r 0 of None \<Rightarrow> Inl TypeError | Some from \<Rightarrow>
      (case decodePath E from of Inl e \<Rightarrow> Inl e | Inr fromDecoded \<Rightarrow>
       (case field r 1 of None \<Rightarrow> Inl TypeError | Some to \<Rightarrow>
        (case (if startsWith to ''/'' then decodePath E to else decodeURI E to) of
           Inl e \<Rightarrow> Inl e
         | Inr toDecoded \<Rightarrow> Inr (fromDecoded, toDecoded)))))"

fun errorOnEncoded :: "env \<Rightarrow> row list \<Rightarrow> error + unit" where
  "errorOnEncoded E [] = Inr ()"
| "errorOnEncoded E (r # paris) =
     (case decodePair E r of
        Inl e \<Rightarrow> Inl e
      | Inr (decodedFrom, decodedTo) \<Rightarrow>
          if Some decodedFrom \<noteq> field r 0 then Inl (From_must_be_decoded (the (field r 0)))
          else if Some decodedTo \<noteq> field r 1 then Inl (To_must_be_decoded (the (field r 1)))
          else errorOnEncoded E paris)"

fun errorOnDuplicated_loop :: "string set \<Rightarrow> row list \<Rightarrow> error + unit" where
  "errorOnDuplicated_loop seen [] = Inr ()"
| "errorOnDuplicated_loop seen (r # pairs) =
     (case field r 0 of
        None \<Rightarrow> Inl TypeError
      | Some from \<Rightarrow>
         (let fromLower = toLowerCase from
          in if fromLower \<in> seen then Inl (Duplicated_redirect fromLower)
             else errorOnDuplicated_loop (insert fromLower seen) pairs))"

definition errorOnDuplicated :: "row list \<Rightarrow> error + unit" where
  "errorOnDuplicated pairs = errorOnDuplicated_loop {} pairs"

fun validatePairs :: "env \<Rightarrow> row list \<Rightarrow> bool \<Rightarrow> error + unit" where
  "validatePairs E [] checkExists = Inr ()"
| "validatePairs E (r # pairs) checkExists =
     (case field r 0 of None \<Rightarrow> Inl TypeError | Some from \<Rightarrow>
      (case validateFromURL E from False of Inl e \<Rightarrow> Inl e | Inr u1 \<Rightarrow>
       (case field r 1 of None \<Rightarrow> Inl TypeError | Some to \<Rightarrow>
        (case validateToURL E to False checkExists of Inl e \<Rightarrow> Inl e | Inr u2 \<Rightarrow>
           validatePairs E pairs checkExists))))"

subsection \<open>removeOrphanedRedirects\<close>

text \<open>The \<^verbatim>\<open>filter\<close> of \<^verbatim>\<open>removeOrphanedRedirects\<close>; an error thrown by the callback ends
  it. The \<^verbatim>\<open>console.log\<close> of each removed pair is not part of the value.\<close>

fun removeOrphanedRedirects :: "env \<Rightarrow> pair list \<Rightarrow> error + pair list" where
  "removeOrphanedRedirects E [] = Inr []"
| "removeOrphanedRedirects E ((from, to) # pairs) =
     (case resolveDocumentPath E from of Inl e \<Rightarrow> Inl e | Inr fromPath \<Rightarrow>
        if truthy fromPath then removeOrphanedRedirects E pairs
        else if startsWith to ''/'' then
          (case resolveDocumentPath E to of Inl e \<Rightarrow> Inl e | Inr toPath \<Rightarrow>
             if \<not> truthy toPath then removeOrphanedRedirects E pairs
             else map_sum id (\<lambda>kept. (from, to) # kept) (removeOrphanedRedirects E pairs))
        else map_sum id (\<lambda>kept. (from, to) # kept) (removeOrphanedRedirects E pairs))"

subsection \<open>Reading and writing the table\<close>

definition loadPairsFromFile :: "env \<Rightarrow> string \<Rightarrow> bool \<Rightarrow> error + row list" where
  "loadPairsFromFile E filePath strict =
     (case readFileSync E filePath of Inl e \<Rightarrow> Inl e | Inr content \<Rightarrow>
        (let pairs = map (\<lambda>line. split_tabs (trim line)) (drop 1 (split_on LF (trim content)))
         in case (if strict then
                    (case errorOnEncoded E pairs of Inl e \<Rightarrow> Inl e
                     | Inr u \<Rightarrow> errorOnDuplicated pairs)
                  else Inr ()) of
              Inl e \<Rightarrow> Inl e
            | Inr u \<Rightarrow>
               (case validatePairs E pairs strict of Inl e \<Rightarrow> Inl e | Inr u' \<Rightarrow> Inr pairs)))"

text \<open>What \<^verbatim>\<open>save\<close> writes, and the file system after it (the stream is taken as written
  when \<^verbatim>\<open>save\<close> returns).\<close>

definition save_content :: "pair list \<Rightarrow> string" where
  "save_content pairs =
     ''# FROM-URL'' @ [TAB] @ ''TO-URL'' @ [LF]
     @ concat (map (\<lambda>(fromURL, toURL). fromURL @ [TAB] @ toURL @ [LF]) pairs)"

definition save :: "env \<Rightarrow> string \<Rightarrow> pair list \<Rightarrow> env" where
  "save E localeFolder pairs =
     (let filePath = path_join E [localeFolder, ''_redirects.txt'']
      in E\<lparr>files := (files E)(filePath \<mapsto> save_content pairs)\<rparr>)"

subsection \<open>loadLocaleAndAdd, add and validateLocale\<close>

text \<open>The object that \<^verbatim>\<open>loadLocaleAndAdd\<close> returns is a record of its three fields.
  \<^verbatim>\<open>simplifiedPairs == pairs\<close> compares two arrays by identity. An array is its
  elements and a number that tells it from the other arrays the call creates:
  0 for \<^verbatim>\<open>const pairs = []\<close>, 1 for the result of \<^verbatim>\<open>filter\<close> in
  \<^verbatim>\<open>removeConflictingOldRedirects\<close> (which returns the array it was given when that is
  empty), 2 for the array that \<^verbatim>\<open>shortCuts\<close> returns and 3 for the result of \<^verbatim>\<open>filter\<close>
  in \<^verbatim>\<open>removeOrphanedRedirects\<close>; \<^verbatim>\<open>push\<close> keeps the number.\<close>

record 'a array =
  ident :: nat
  elems :: "'a list"

record load_result =
  result_pairs :: "pair list"
  result_root :: string
  result_changed :: bool

definition defined_pairs :: "restored_pair list \<Rightarrow> pair list option" where
  "defined_pairs out =
     those (map (\<lambda>(a, b). case (a, b) of (Some f, Some t) \<Rightarrow> Some (f, t) | _ \<Rightarrow> None) out)"

definition loadLocaleAndAdd :: "env \<Rightarrow> string \<Rightarrow> pair list \<Rightarrow> bool \<Rightarrow> error + load_result" where
  "loadLocaleAndAdd E locale0 updatePairs fix =
     (case errorOnEncoded E (map row_of_pair updatePairs) of Inl e \<Rightarrow> Inl e | Inr u1 \<Rightarrow>
      (case errorOnDuplicated (map row_of_pair updatePairs) of Inl e \<Rightarrow> Inl e | Inr u2 \<Rightarrow>
      (case validatePairs E (map row_of_pair updatePairs) True of Inl e \<Rightarrow> Inl e | Inr u3 \<Rightarrow>
      (let locale = toLowerCase locale0 in
       case (if locale \<noteq> ''en-us'' then
               (if truthy (CONTENT_TRANSLATED_ROOT E) then Inr (CONTENT_TRANSLATED_ROOT E)
                else Inl (Translated_root_not_set locale))
             else Inr (CONTENT_ROOT E)) of Inl e \<Rightarrow> Inl e | Inr root_opt \<Rightarrow>
       (case root_opt of None \<Rightarrow> Inl TypeError | Some root \<Rightarrow>
       (let redirectsFilePath = path_join E [root, locale, ''_redirects.txt''];
            pairs0 = \<lparr>ident = 0, elems = []\<rparr>
        in case (if existsSync E redirectsFilePath then
                   (case loadPairsFromFile E redirectsFilePath (\<not> fix) of
                      Inl e \<Rightarrow> Inl e
                    | Inr rows \<Rightarrow> Inr (pairs0\<lparr>elems := elems pairs0 @ rows\<rparr>))
                 else Inr pairs0) of Inl e \<Rightarrow> Inl e | Inr pairs \<Rightarrow>
        (case those (map pair_of_row (elems pairs)) of None \<Rightarrow> Inl TypeError | Some old \<Rightarrow>
        (let cleanPairs0 =
               (if length old = 0 then \<lparr>ident = ident pairs, elems = old\<rparr>
                else \<lparr>ident = 1, elems = removeConflictingOldRedirects old updatePairs\<rparr>);
             cleanPairs = cleanPairs0\<lparr>elems := elems cleanPairs0 @ updatePairs\<rparr>
         in case shortCuts (elems cleanPairs) False of Inl e \<Rightarrow> Inl e | Inr out \<Rightarrow>
         (case defined_pairs out of None \<Rightarrow> Inl TypeError | Some flat \<Rightarrow>
         (let simplifiedPairs0 = \<lparr>ident = 2, elems = flat\<rparr>
          in case (if fix then
                     (case removeOrphanedRedirects E (elems simplifiedPairs0) of
                        Inl e \<Rightarrow> Inl e
                      | Inr kept \<Rightarrow> Inr \<lparr>ident = 3, elems = kept\<rparr>)
                   else Inr simplifiedPairs0) of Inl e \<Rightarrow> Inl e | Inr simplifiedPairs \<Rightarrow>
          (case validatePairs E (map row_of_pair (elems simplifiedPairs)) True of
             Inl e \<Rightarrow> Inl e
           | Inr u4 \<Rightarrow>
               Inr \<lparr>result_pairs = elems simplifiedPairs, result_root = root,
                    result_changed = (ident simplifiedPairs = ident pairs)\<rparr>)))))))))))"

definition add :: "env \<Rightarrow> string \<Rightarrow> pair list \<Rightarrow> bool \<Rightarrow> error + env" where
  "add E locale updatePairs fix =
     (case loadLocaleAndAdd E locale updatePairs fix of
        Inl e \<Rightarrow> Inl e
      | Inr r \<Rightarrow> Inr (save E (path_join E [result_root r, locale]) (result_pairs r)))"

definition validateLocale :: "env \<Rightarrow> string \<Rightarrow> bool \<Rightarrow> error + unit" where
  "validateLocale E locale strict =
     (case loadLocaleAndAdd E locale [] strict of
        Inl e \<Rightarrow> Inl e
      | Inr r \<Rightarrow> if result_changed r then Inl (Flawed locale) else Inr ())"

subsection \<open>An environment for the scenarios\<close>

text \<open>One locale, the content under \<^verbatim>\<open>/content\<close>, paths joined with a slash, decoding
  that changes nothing, and a file system given by the list of its files.\<close>

definition scenario_env :: "(string \<times> string) list \<Rightarrow> env" where
  "scenario_env fs =
     \<lparr>VALID_LOCALES = [(''en-us'', ''en-US'')],
      CONTENT_ROOT = Some ''/content'',
      CONTENT_TRANSLATED_ROOT = None,
      slugToFolder = (\<lambda>slug. slug),
      isArchivedFilePath = (\<lambda>p. False),
      decodePath = Inr,
      decodeURI = Inr,
      URL_protocol = (\<lambda>url. if startsWith url ''https://'' then Inr ''https:''
                            else Inl (External ''Invalid URL'')),
      path_join = join ''/'',
      resolveFundamental_url = (\<lambda>url. None),
      files = map_of fs,
      redirects = []\<rparr>"

text \<open>A table with the chain \<^verbatim>\<open>A -> B -> C\<close>, in an environment where only the document
  \<^verbatim>\<open>C\<close> exists.\<close>

definition chain_table :: string where
  "chain_table =
     ''# FROM-URL'' @ [TAB] @ ''TO-URL'' @ [LF]
     @ ''/en-US/docs/A'' @ [TAB] @ ''/en-US/docs/B'' @ [LF]
     @ ''/en-US/docs/B'' @ [TAB] @ ''/en-US/docs/C'' @ [LF]"

definition chain_env :: env where
  "chain_env =
     scenario_env [(''/content/en-us/_redirects.txt'', chain_table),
                   (''/content/en-us/c/index.html'', ''C'')]"

subsection \<open>Notions used to state the round trip\<close>

text \<open>The first line of the file, the line of a pair without its newline, and the pairs
  whose line survives \<^verbatim>\<open>trim\<close> and splits into its two fields.\<close>

definition header :: string where
  "header = ''# FROM-URL'' @ [TAB] @ ''TO-URL''"

definition line_of :: "pair \<Rightarrow> string" where
  "line_of p = fst p @ TAB # snd p"

definition well_shaped :: "pair \<Rightarrow> bool" where
  "well_shaped p \<longleftrightarrow>
     fst p \<noteq> [] \<and> \<not> is_space (hd (fst p)) \<and> TAB \<notin> set (fst p) \<and> LF \<notin> set (fst p)
     \<and> snd p \<noteq> [] \<and> \<not> is_space (last (snd p)) \<and> TAB \<notin> set (snd p) \<and> LF \<notin> set (snd p)"

section \<open>Properties\<close>

subsection \<open>Map\<close>

lemma map_of_Map_set: "map_of (Map_set m k v) = (map_of m)(k \<mapsto> v)"
  by (simp add: Map_set_def update_conv')

lemma keys_Map_set: "fst ` set (Map_set m k v) = insert k (fst ` set m)"
  by (simp add: Map_set_def dom_update)

lemma distinct_Map_set: "distinct (map fst m) \<Longrightarrow> distinct (map fst (Map_set m k v))"
  by (simp add: Map_set_def distinct_update)

lemma Map_set_fresh: "k \<notin> fst ` set m \<Longrightarrow> Map_set m k v = m @ [(k, v)]"
  unfolding Map_set_def by (induction m) auto

lemma foldl_Map_set_map_of:
  "map_of (foldl (\<lambda>m (k, v). Map_set m k v) m0 es) = map_of (rev es @ m0)"
proof (induction es arbitrary: m0)
  case Nil
  then show ?case by simp
next
  case (Cons e es)
  obtain k v where e: "e = (k, v)" by (cases e)
  have "map_of (foldl (\<lambda>m (k, v). Map_set m k v) (Map_set m0 k v) es)
        = map_of (rev es @ Map_set m0 k v)"
    by (rule Cons.IH)
  also have "\<dots> = map_of (rev es @ (k, v) # m0)"
    by (simp add: map_of_append map_of_Map_set)
  finally show ?case by (simp add: e)
qed

lemma map_of_new_Map: "map_of (new_Map es) = map_of (rev es)"
  by (simp add: new_Map_def foldl_Map_set_map_of)

lemma foldl_Map_set_distinct:
  "distinct (map fst m0) \<Longrightarrow> distinct (map fst (foldl (\<lambda>m (k, v). Map_set m k v) m0 es))"
  by (induction es arbitrary: m0) (auto simp: distinct_Map_set)

lemma distinct_new_Map: "distinct (map fst (new_Map es))"
  by (simp add: new_Map_def foldl_Map_set_distinct)

lemma foldl_Map_set_fresh:
  "distinct (map fst (m0 @ es)) \<Longrightarrow> foldl (\<lambda>m (k, v). Map_set m k v) m0 es = m0 @ es"
proof (induction es arbitrary: m0)
  case Nil
  then show ?case by simp
next
  case (Cons e es)
  obtain k v where e: "e = (k, v)" by (cases e)
  have fresh: "k \<notin> fst ` set m0" using Cons.prems e by auto
  have d: "distinct (map fst ((m0 @ [(k, v)]) @ es))" using Cons.prems e by simp
  show ?case using Cons.IH [OF d] fresh by (simp add: e Map_set_fresh)
qed

lemma new_Map_distinct: "distinct (map fst es) \<Longrightarrow> new_Map es = es"
  using foldl_Map_set_fresh [of "[]" es] by (simp add: new_Map_def)

lemma keys_new_Map: "fst ` set (new_Map es) = fst ` set es"
proof -
  have "dom (map_of (new_Map es)) = dom (map_of (rev es))" by (simp add: map_of_new_Map)
  then show ?thesis by (simp add: dom_map_of_conv_image_fst)
qed

lemma set_new_Map: "set (new_Map es) \<subseteq> set es"
proof
  fix e assume "e \<in> set (new_Map es)"
  then have "map_of (new_Map es) (fst e) = Some (snd e)"
    using distinct_new_Map [of es] by (simp add: map_of_eq_Some_iff)
  then have "map_of (rev es) (fst e) = Some (snd e)" by (simp add: map_of_new_Map)
  then have "(fst e, snd e) \<in> set (rev es)" by (rule map_of_SomeD)
  then show "e \<in> set es" by simp
qed

subsection \<open>Chains and transit\<close>

lemma chain_target_terminal: "chain g s p t \<Longrightarrow> \<not> truthy (Map_get g t)"
  by (induction rule: chain.induct) auto

lemma chain_nodes_truthy: "chain g s p t \<Longrightarrow> f \<in> set p \<Longrightarrow> truthy (Map_get g f)"
  by (induction rule: chain.induct) auto

lemma chain_head: "chain g s p t \<Longrightarrow> hd (p @ [t]) = s"
  by (induction rule: chain.induct) auto

lemma chain_unique: "chain g s p t \<Longrightarrow> chain g s p' t' \<Longrightarrow> p = p' \<and> t = t'"
proof (induction arbitrary: p' t' rule: chain.induct)
  case (chain_end s)
  then show ?case by (auto elim: chain.cases)
next
  case (chain_step s n p t)
  from chain_step.prems chain_step.hyps(1,2) obtain q where
    "p' = s # q" "chain g n q t'"
    by (auto elim: chain.cases)
  then show ?case using chain_step.IH by auto
qed

lemma chain_suffix:
  "chain g s p t \<Longrightarrow> f \<in> set p \<Longrightarrow> \<exists>q. chain g f q t \<and> q \<noteq> [] \<and> length q \<le> length p"
proof (induction rule: chain.induct)
  case (chain_end s)
  then show ?case by simp
next
  case (chain_step s n p t)
  show ?case
  proof (cases "f = s")
    case True
    have "chain g s (s # p) t" using chain_step.hyps by (auto intro: chain.chain_step)
    then show ?thesis using True by auto
  next
    case False
    then have "f \<in> set p" using chain_step.prems by simp
    then obtain q where "chain g f q t" "q \<noteq> []" "length q \<le> length p"
      using chain_step.IH by blast
    then show ?thesis by auto
  qed
qed

lemma chain_distinct: "chain g s p t \<Longrightarrow> distinct (p @ [t])"
proof (induction rule: chain.induct)
  case (chain_end s)
  then show ?case by simp
next
  case (chain_step s n p t)
  have whole: "chain g s (s # p) t" using chain_step.hyps by (auto intro: chain.chain_step)
  have "s \<noteq> t"
    using chain_target_terminal [OF whole] chain_step.hyps(1) by auto
  moreover have "s \<notin> set p"
  proof
    assume "s \<in> set p"
    then obtain q where q: "chain g s q t" "length q \<le> length p"
      using chain_suffix [OF chain_step.hyps(3)] by blast
    from chain_unique [OF whole q(1)] q(2) show False by auto
  qed
  ultimately show ?case using chain_step.IH by simp
qed

lemma chain_last: "chain g s p t \<Longrightarrow> p \<noteq> [] \<Longrightarrow> Map_get g (last p) = Some t \<and> t \<noteq> []"
proof (induction rule: chain.induct)
  case (chain_end s)
  then show ?case by simp
next
  case (chain_step s n p t)
  show ?case
  proof (cases p)
    case Nil
    then have "n = t" using chain_step.hyps(3) by (auto elim: chain.cases)
    then show ?thesis using chain_step.hyps(1,2) Nil by (simp add: truthy_def)
  next
    case (Cons a list)
    then show ?thesis using chain_step.IH by simp
  qed
qed

lemma transit_chain:
  "transit g throws s froms = Walked fs t \<Longrightarrow> \<exists>p. fs = froms @ p \<and> chain g s p t"
proof (induction g throws s froms rule: transit.induct)
  case (1 g throws s froms)
  show ?case
  proof (cases "truthy (Map_get g s)")
    case False
    then have "fs = froms" "t = s" using "1.prems" by (simp_all add: transit.simps)
    then show ?thesis using False by (auto intro: chain_end)
  next
    case True
    then obtain n where n: "Map_get g s = Some n" by (auto simp: truthy_def split: option.splits)
    have notin: "n \<notin> set (froms @ [s])"
      using "1.prems" True n by (auto simp: transit.simps [of g throws s froms] Let_def split: if_splits)
    then have rec: "transit g throws n (froms @ [s]) = Walked fs t"
      using "1.prems" True n by (simp add: transit.simps [of g throws s froms] Let_def)
    have "\<exists>p. fs = (froms @ [s]) @ p \<and> chain g (the (Map_get g s)) p t"
      using "1.IH" [OF refl True refl] notin rec n by simp
    then obtain p where "fs = (froms @ [s]) @ p" "chain g n p t" using n by auto
    then show ?thesis using True n by (auto intro: chain_step)
  qed
qed

lemma chain_transit:
  "chain g s p t \<Longrightarrow> set froms \<inter> set (p @ [t]) = {}
   \<Longrightarrow> transit g throws s froms = Walked (froms @ p) t"
proof (induction arbitrary: froms rule: chain.induct)
  case (chain_end s)
  then show ?case by (simp add: transit.simps [of g throws s froms])
next
  case (chain_step s n p t)
  have whole: "chain g s (s # p) t" using chain_step.hyps by (auto intro: chain.chain_step)
  have d: "distinct (s # p @ [t])" using chain_distinct [OF whole] by simp
  have hd: "hd (p @ [t]) = n" using chain_head [OF chain_step.hyps(3)] .
  then have nin: "n \<in> set (p @ [t])" by (metis hd_in_set snoc_eq_iff_butlast)
  have n1: "n \<notin> set froms" using chain_step.prems nin by auto
  have n2: "n \<noteq> s" using d nin by auto
  have disj: "set (froms @ [s]) \<inter> set (p @ [t]) = {}" using chain_step.prems d by auto
  have "transit g throws n (froms @ [s]) = Walked ((froms @ [s]) @ p) t"
    by (rule chain_step.IH [OF disj])
  then show ?case
    using chain_step.hyps(1,2) n1 n2 by (simp add: transit.simps [of g throws s froms] Let_def)
qed

lemma transit_Walked_iff_chain:
  "transit g throws s [] = Walked p t \<longleftrightarrow> chain g s p t"
  using transit_chain [of g throws s "[]" p t] chain_transit [of g s p t "[]" throws] by auto

lemma map_of_set_all:
  "map_of (set_all td fs t) k = (if k \<in> set fs then Some t else map_of td k)"
  by (induction td fs t rule: set_all.induct) (auto simp: map_of_Map_set)

lemma distinct_set_all: "distinct (map fst td) \<Longrightarrow> distinct (map fst (set_all td fs t))"
  by (induction td fs t rule: set_all.induct) (auto simp: distinct_Map_set)

lemma transit_not_Thrown: "transit g False s froms \<noteq> Thrown e"
proof (induction g "False" s froms rule: transit.induct)
  case (1 g s froms)
  then show ?case
    by (simp add: transit.simps [of g False s froms] Let_def)
qed

lemma transit_not_Logged: "transit g True s froms \<noteq> Logged e"
proof (induction g "True" s froms rule: transit.induct)
  case (1 g s froms)
  then show ?case
    by (simp add: transit.simps [of g True s froms] Let_def)
qed


lemma chain_nonempty_iff: "chain g s p t \<Longrightarrow> (p \<noteq> []) = truthy (Map_get g s)"
  by (erule chain.cases) auto


lemma settled_set_all:
  assumes "settled g td" and "chain g s p t"
  shows "settled g (set_all td p t)"
  unfolding settled_def
proof (intro allI impI)
  fix k v assume a: "map_of (set_all td p t) k = Some v"
  show "\<exists>q. chain g k q v \<and> q \<noteq> []"
  proof (cases "k \<in> set p")
    case True
    then have "v = t" using a by (simp add: map_of_set_all)
    then show ?thesis using chain_suffix [OF assms(2) True] by blast
  next
    case False
    then have "map_of td k = Some v" using a by (simp add: map_of_set_all)
    then show ?thesis using assms(1) by (simp add: settled_def)
  qed
qed

lemma walks_settled:
  "walks g throws srcs (td, c) = Inr (td', c') \<Longrightarrow> settled g td \<Longrightarrow> settled g td'"
proof (induction srcs arbitrary: td c)
  case Nil
  then show ?case by simp
next
  case (Cons x srcs)
  obtain s u where x: "x = (s, u)" by (cases x)
  show ?case
  proof (cases "transit g throws s []")
    case (Thrown e)
    then show ?thesis using Cons.prems x by simp
  next
    case (Logged e)
    then show ?thesis using Cons x by simp
  next
    case (Walked p t)
    then have "chain g s p t" by (simp add: transit_Walked_iff_chain)
    then have "settled g (set_all td p t)" using Cons.prems(2) by (rule settled_set_all [rotated])
    then show ?thesis using Cons.IH Cons.prems(1) x Walked by simp
  qed
qed

lemma walks_distinct:
  "walks g throws srcs (td, c) = Inr (td', c') \<Longrightarrow> distinct (map fst td)
   \<Longrightarrow> distinct (map fst td')"
proof (induction srcs arbitrary: td c)
  case Nil
  then show ?case by simp
next
  case (Cons x srcs)
  obtain s u where x: "x = (s, u)" by (cases x)
  show ?case
    using Cons x by (cases "transit g throws s []") (auto simp: distinct_set_all)
qed



lemma walks_False_total: "\<exists>td' c'. walks g False srcs (td, c) = Inr (td', c')"
proof (induction srcs arbitrary: td c)
  case Nil
  then show ?case by simp
next
  case (Cons x srcs)
  obtain s u where x: "x = (s, u)" by (cases x)
  show ?case using Cons x transit_not_Thrown [of g s "[]"]
    by (cases "transit g False s []") auto
qed

subsection \<open>Casing and the output of shortCuts\<close>

lemma casing_eq: "casing pairs = new_Map (map (\<lambda>u. (toLowerCase u, u)) (occurrences pairs))"
  by (simp add: casing_def occurrences_def case_prod_unfold comp_def)

lemma map_of_tagged: "map_of (map (\<lambda>u. (h u, u)) xs) k = find (\<lambda>u. h u = k) xs"
  by (induction xs) auto

lemma casing_last_seen:
  "Map_get (casing pairs) k = find (\<lambda>u. toLowerCase u = k) (rev (occurrences pairs))"
proof -
  have "rev (map (\<lambda>u. (toLowerCase u, u)) (occurrences pairs))
        = map (\<lambda>u. (toLowerCase u, u)) (rev (occurrences pairs))"
    by (simp add: rev_map)
  then show ?thesis
    by (simp add: Map_get_def casing_eq map_of_new_Map map_of_tagged)
qed

lemma casing_Some: "Map_get (casing pairs) k = Some y \<Longrightarrow> toLowerCase y = k \<and> y \<in> set (occurrences pairs)"
proof -
  assume "Map_get (casing pairs) k = Some y"
  then have f: "find (\<lambda>u. toLowerCase u = k) (rev (occurrences pairs)) = Some y"
    by (simp add: casing_last_seen)
  then obtain i where "i < length (rev (occurrences pairs))" "toLowerCase (rev (occurrences pairs) ! i) = k"
    "y = rev (occurrences pairs) ! i"
    unfolding find_Some_iff by blast
  then have "toLowerCase y = k" "y \<in> set (rev (occurrences pairs))"
    using nth_mem by blast+
  then show ?thesis by simp
qed

lemma casing_defined:
  assumes "k \<in> toLowerCase ` set (occurrences pairs)"
  shows "\<exists>y. Map_get (casing pairs) k = Some y"
proof (cases "find (\<lambda>u. toLowerCase u = k) (rev (occurrences pairs))")
  case None
  then have "\<forall>u\<in>set (occurrences pairs). toLowerCase u \<noteq> k"
    by (simp add: find_None_iff)
  then show ?thesis using assms by blast
next
  case (Some y)
  then show ?thesis by (simp add: casing_last_seen)
qed

lemma set_lowerCasePairs:
  "set (lowerCasePairs pairs) = (\<lambda>p. (toLowerCase (fst p), toLowerCase (snd p))) ` set pairs"
  by (simp add: lowerCasePairs_def case_prod_unfold)

lemma dg_keys: "fst ` set (dg pairs) = toLowerCase ` fst ` set pairs"
proof -
  have "fst ` set (dg pairs) = fst ` set (lowerCasePairs pairs)"
    by (simp add: dg_def keys_new_Map)
  also have "\<dots> = toLowerCase ` fst ` set pairs"
    by (simp add: set_lowerCasePairs image_image)
  finally show ?thesis .
qed

lemma dg_entries:
  assumes "(k, v) \<in> set (dg pairs)"
  shows "v \<in> toLowerCase ` snd ` set pairs"
proof -
  have "(k, v) \<in> set (lowerCasePairs pairs)"
    using assms set_new_Map [of "lowerCasePairs pairs"] unfolding dg_def by blast
  then obtain p where "p \<in> set pairs" "v = toLowerCase (snd p)"
    unfolding set_lowerCasePairs by auto
  then show ?thesis by simp
qed

lemma truthy_key:
  assumes "truthy (Map_get g k)"
  shows "k \<in> fst ` set g"
proof -
  have "map_of g k \<noteq> None" using assms by (auto simp: truthy_def Map_get_def split: option.splits)
  then show ?thesis by (simp add: map_of_eq_None_iff)
qed

lemma edge_nodes:
  assumes "chain (dg pairs) k p v" and "p \<noteq> []"
  shows "\<exists>f t. Map_get (casing pairs) k = Some f \<and> Map_get (casing pairs) v = Some t
           \<and> toLowerCase f = k \<and> toLowerCase t = v"
proof -
  have "truthy (Map_get (dg pairs) k)" using chain_nonempty_iff [OF assms(1)] assms(2) by simp
  then have "k \<in> fst ` set (dg pairs)" by (rule truthy_key)
  then have "k \<in> toLowerCase ` fst ` set pairs" by (simp only: dg_keys)
  then have "k \<in> toLowerCase ` set (occurrences pairs)" by (auto simp: occurrences_def)
  then obtain f where f: "Map_get (casing pairs) k = Some f" using casing_defined by blast
  have "Map_get (dg pairs) (last p) = Some v" using chain_last [OF assms] by simp
  then have "(last p, v) \<in> set (dg pairs)" unfolding Map_get_def by (rule map_of_SomeD)
  then have "v \<in> toLowerCase ` snd ` set pairs" by (rule dg_entries)
  then have "v \<in> toLowerCase ` set (occurrences pairs)" by (auto simp: occurrences_def)
  then obtain t where t: "Map_get (casing pairs) v = Some t" using casing_defined by blast
  have "toLowerCase f = k" "toLowerCase t = v" using casing_Some [OF f] casing_Some [OF t] by simp_all
  then show ?thesis using f t by simp
qed

lemma set_sort_insert: "set (sort_insert cmp x xs) = insert x (set xs)"
  by (induction xs) auto

lemma set_Array_sort: "set (Array_sort cmp xs) = set xs"
  unfolding Array_sort_def by (induction xs) (auto simp: set_sort_insert)

lemma settled_empty: "settled g []"
  by (simp add: settled_def)

lemma shortCuts_unfold:
  "shortCuts pairs throws = Inr out \<Longrightarrow>
     \<exists>td c. walks (dg pairs) throws (lowerCasePairs pairs) ([], []) = Inr (td, c)
        \<and> out = Array_sort sortTuples (mappedPairs pairs td)"
  by (auto simp: shortCuts_def shortCuts_console_def split: sum.splits)

lemma output_edge:
  assumes "shortCuts pairs throws = Inr out" and "e \<in> set out"
  obtains k v p f t where "chain (dg pairs) k p v" and "p \<noteq> []" and "e = (Some f, Some t)"
    and "Map_get (casing pairs) k = Some f" and "Map_get (casing pairs) v = Some t"
    and "toLowerCase f = k" and "toLowerCase t = v"
proof -
  obtain td c where w: "walks (dg pairs) throws (lowerCasePairs pairs) ([], []) = Inr (td, c)"
    and out: "out = Array_sort sortTuples (mappedPairs pairs td)"
    using shortCuts_unfold [OF assms(1)] by blast
  have st: "settled (dg pairs) td" using walks_settled [OF w settled_empty] .
  have d: "distinct (map fst td)" using walks_distinct [OF w] by simp
  have "e \<in> set (mappedPairs pairs td)" using assms(2) by (simp add: out set_Array_sort)
  then obtain k v where kv: "(k, v) \<in> set td"
    and e: "e = (Map_get (casing pairs) k, Map_get (casing pairs) v)"
    unfolding mappedPairs_def by auto
  have "map_of td k = Some v" using kv d by simp
  then obtain p where p: "chain (dg pairs) k p v" "p \<noteq> []"
    using st unfolding settled_def by blast
  obtain f t where ft: "Map_get (casing pairs) k = Some f" "Map_get (casing pairs) v = Some t"
      "toLowerCase f = k" "toLowerCase t = v"
    using edge_nodes [OF p] by blast
  have e': "e = (Some f, Some t)" using e ft by simp
  show ?thesis by (rule that [OF p e' ft])
qed

lemma acyclic_output:
  assumes "shortCuts pairs throws = Inr out" and "(from, to) \<in> set out"
  shows "\<exists>f t. from = Some f \<and> to = Some t \<and>
           (\<forall>e\<in>set out. \<forall>f'. fst e = Some f' \<longrightarrow> toLowerCase f' \<noteq> toLowerCase t)"
proof -
  obtain k v p f t where 1: "chain (dg pairs) k p v" "(from, to) = (Some f, Some t)"
      "toLowerCase t = v"
    by (rule output_edge [OF assms])
  have "\<forall>e\<in>set out. \<forall>f'. fst e = Some f' \<longrightarrow> toLowerCase f' \<noteq> toLowerCase t"
  proof (intro ballI allI impI)
    fix e f' assume e: "e \<in> set out" "fst e = Some f'"
    obtain k' v' p' f'' t'' where 2: "chain (dg pairs) k' p' v'" "p' \<noteq> []"
      "e = (Some f'', Some t'')" "toLowerCase f'' = k'"
      by (rule output_edge [OF assms(1) e(1)])
    have same: "f'' = f'" using 2(3) e(2) by simp
    have "truthy (Map_get (dg pairs) k')" using chain_nonempty_iff [OF 2(1)] 2(2) by simp
    moreover have "\<not> truthy (Map_get (dg pairs) v)" using chain_target_terminal [OF 1(1)] .
    ultimately have "k' \<noteq> v" by auto
    then show "toLowerCase f' \<noteq> toLowerCase t" using 1(3) 2(4) same by simp
  qed
  then show ?thesis using 1(2) by simp
qed






lemma shortCuts_console_False:
  "\<exists>td c. walks (dg pairs) False (lowerCasePairs pairs) ([], []) = Inr (td, c)
      \<and> shortCuts_console pairs False = Inr (Array_sort sortTuples (mappedPairs pairs td), c)"
proof -
  obtain td c where "walks (dg pairs) False (lowerCasePairs pairs) ([], []) = Inr (td, c)"
    using walks_False_total by blast
  then show ?thesis by (simp add: shortCuts_console_def)
qed








lemma shortCuts_False_returns: "\<exists>out. shortCuts pairs False = Inr out"
  using shortCuts_console_False [of pairs] by (auto simp: shortCuts_def)


lemma restored_last_seen:
  assumes "shortCuts pairs throws = Inr out" and "e \<in> set out"
  shows "\<exists>f t. e = (Some f, Some t) \<and> last_seen pairs (toLowerCase f) = Some f
           \<and> last_seen pairs (toLowerCase t) = Some t"
proof -
  obtain k v p f t where "chain (dg pairs) k p v" and 1: "e = (Some f, Some t)"
    "Map_get (casing pairs) k = Some f" "Map_get (casing pairs) v = Some t"
    "toLowerCase f = k" "toLowerCase t = v"
    by (rule output_edge [OF assms])
  then show ?thesis by (simp add: last_seen_def casing_last_seen)
qed

lemma loadLocaleAndAdd_unchanged:
  "loadLocaleAndAdd E loc updatePairs fix = Inr r \<Longrightarrow> \<not> result_changed r"
  unfolding loadLocaleAndAdd_def Let_def
  by (auto split: sum.splits option.splits if_splits)

lemma validateLocale_silent:
  "loadLocaleAndAdd E loc [] strict = Inr r \<Longrightarrow> validateLocale E loc strict = Inr ()"
  using loadLocaleAndAdd_unchanged [of E loc "[]" strict r]
  by (simp add: validateLocale_def)

lemma validatePairs_each:
  "validatePairs E rows checkExists = Inr () \<Longrightarrow> r \<in> set rows \<Longrightarrow>
     \<exists>from to. field r 0 = Some from \<and> field r 1 = Some to
        \<and> validateFromURL E from False = Inr () \<and> validateToURL E to False checkExists = Inr ()"
proof (induction rows)
  case Nil
  then show ?case by simp
next
  case (Cons a rows)
  from Cons.prems(1) obtain f t where a: "field a 0 = Some f" "field a 1 = Some t"
    "validateFromURL E f False = Inr ()" "validateToURL E t False checkExists = Inr ()"
    and rest: "validatePairs E rows checkExists = Inr ()"
    by (auto split: option.splits sum.splits)
  show ?case
  proof (cases "r = a")
    case True
    then show ?thesis using a by simp
  next
    case False
    then show ?thesis using Cons.IH [OF rest] Cons.prems(2) by simp
  qed
qed



lemma validateToURL_not_internal:
  assumes "\<not> startsWith to ''/'' \<or> js_includes to ''://'' \<or> isVanityRedirectURL E to"
  shows "validateToURL E to False True = validateToURL E to False False"
  using assms unfolding validateToURL_def by auto






lemma dropWhile_hd: "xs \<noteq> [] \<Longrightarrow> \<not> P (hd xs) \<Longrightarrow> dropWhile P xs = xs"
  by (cases xs) simp_all

lemma trim_id:
  assumes "s \<noteq> []" and "\<not> is_space (hd s)" and "\<not> is_space (last s)"
  shows "trim s = s"
proof -
  have 1: "dropWhile is_space s = s" using assms(1,2) by (rule dropWhile_hd)
  have "rev s \<noteq> []" "\<not> is_space (hd (rev s))" using assms(1,3) by (simp_all add: hd_rev)
  then have 2: "dropWhile is_space (rev s) = rev s" by (rule dropWhile_hd)
  show ?thesis by (simp add: trim_def 1 2)
qed

lemma trim_snoc:
  assumes "is_space c" and "s \<noteq> []" and "\<not> is_space (hd s)" and "\<not> is_space (last s)"
  shows "trim (s @ [c]) = s"
proof -
  have "s @ [c] \<noteq> []" "\<not> is_space (hd (s @ [c]))" using assms(2,3) by simp_all
  then have 1: "dropWhile is_space (s @ [c]) = s @ [c]" by (rule dropWhile_hd)
  have "rev s \<noteq> []" "\<not> is_space (hd (rev s))" using assms(2,4) by (simp_all add: hd_rev)
  then have 2: "dropWhile is_space (rev s) = rev s" by (rule dropWhile_hd)
  show ?thesis using assms(1) by (simp add: trim_def 1 2)
qed

lemma split_on_none: "c \<notin> set xs \<Longrightarrow> split_on c xs = [xs]"
  by (induction xs) auto

lemma split_on_first: "c \<notin> set xs \<Longrightarrow> split_on c (xs @ c # rest) = xs # split_on c rest"
  by (induction xs) auto

lemma split_on_lines:
  assumes "c \<notin> set xs" and "\<forall>l\<in>set ls. c \<notin> set l"
  shows "split_on c (xs @ concat (map (\<lambda>l. c # l) ls)) = xs # ls"
  using assms
proof (induction ls arbitrary: xs)
  case Nil
  then show ?case by (simp add: split_on_none)
next
  case (Cons l ls)
  have "split_on c (xs @ c # (l @ concat (map (\<lambda>l. c # l) ls)))
        = xs # split_on c (l @ concat (map (\<lambda>l. c # l) ls))"
    using Cons.prems(1) by (rule split_on_first)
  also have "split_on c (l @ concat (map (\<lambda>l. c # l) ls)) = l # ls"
    using Cons.IH [of l] Cons.prems(2) by simp
  finally show ?case by simp
qed

lemma split_tabs_none: "TAB \<notin> set xs \<Longrightarrow> split_tabs xs = [xs]"
  by (induction xs) auto

lemma split_tabs_two:
  assumes "TAB \<notin> set f" and "TAB \<notin> set t"
  shows "split_tabs (f @ TAB # t) = [f, t]"
  using assms(1)
proof (induction f)
  case Nil
  have "dropWhile (\<lambda>c. c = TAB) t = t" using assms(2) by (cases t) auto
  then show ?case using assms(2) by (simp add: split_tabs_none)
next
  case (Cons a f)
  then show ?case by auto
qed

lemma js_includes_char: "js_includes s [c] \<longleftrightarrow> c \<in> set s"
  by (induction s) (auto simp: startsWith_def)

lemma checkURLInvalidSymbols_ok:
  "checkURLInvalidSymbols url = Inr () \<Longrightarrow> TAB \<notin> set url \<and> LF \<notin> set url"
  by (auto simp: checkURLInvalidSymbols_def FORBIDDEN_URL_SYMBOLS_def js_includes_char
      split: if_splits)

lemma validateFromURL_shape:
  assumes "validateFromURL E from cr = Inr ()"
  shows "from \<noteq> [] \<and> hd from = CHR ''/'' \<and> TAB \<notin> set from \<and> LF \<notin> set from"
proof -
  have s: "startsWith from ''/''" and c: "checkURLInvalidSymbols from = Inr ()"
    using assms unfolding validateFromURL_def
    by (auto split: if_splits sum.splits)
  have "from \<noteq> [] \<and> hd from = CHR ''/''" using s by (cases "from") (auto simp: startsWith_def)
  then show ?thesis using checkURLInvalidSymbols_ok [OF c] by simp
qed

lemma js_includes_Nil: "js_includes [] sub \<longleftrightarrow> sub = []"
  by simp

lemma validateToURL_nonempty:
  assumes "validateToURL E to cr cp = Inr ()"
  shows "to \<noteq> []"
proof
  assume "to = []"
  then show False using assms
    by (auto simp: validateToURL_def isVanityRedirectURL_def startsWith_def split: if_splits)
qed

lemma concat_shift: "x # concat (map (\<lambda>l. l @ [x]) ls) = concat (map (\<lambda>l. x # l) ls) @ [x]"
  by (induction ls) auto

lemma save_content_body:
  "save_content pairs = (header @ concat (map (\<lambda>l. LF # l) (map line_of pairs))) @ [LF]"
proof -
  have "save_content pairs = header @ (LF # concat (map (\<lambda>l. l @ [LF]) (map line_of pairs)))"
    by (simp add: save_content_def header_def line_of_def comp_def case_prod_unfold)
  then show ?thesis by (simp only: concat_shift append_assoc)
qed

lemma line_of_props:
  assumes "well_shaped p"
  shows "line_of p \<noteq> []" and "\<not> is_space (hd (line_of p))" and "\<not> is_space (last (line_of p))"
    and "LF \<notin> set (line_of p)" and "split_tabs (trim (line_of p)) = row_of_pair p"
proof -
  show 1: "line_of p \<noteq> []" by (simp add: line_of_def)
  show 2: "\<not> is_space (hd (line_of p))" using assms by (simp add: line_of_def well_shaped_def)
  show 3: "\<not> is_space (last (line_of p))" using assms by (simp add: line_of_def well_shaped_def)
  show "LF \<notin> set (line_of p)" using assms by (simp add: line_of_def well_shaped_def)
  have "trim (line_of p) = line_of p" using 1 2 3 by (rule trim_id)
  then show "split_tabs (trim (line_of p)) = row_of_pair p"
    using assms by (simp add: line_of_def well_shaped_def split_tabs_two row_of_pair_def)
qed

lemma last_concat_lines:
  assumes "ls \<noteq> []"
  shows "last (xs @ concat (map (\<lambda>l. c # l) ls)) = last (c # last ls)"
  using assms by (induction ls rule: rev_induct) auto

lemma parse_save_content:
  assumes "\<forall>p\<in>set pairs. well_shaped p"
  shows "map (\<lambda>line. split_tabs (trim line)) (drop 1 (split_on LF (trim (save_content pairs))))
           = map row_of_pair pairs"
proof -
  let ?ls = "map line_of pairs"
  let ?body = "header @ concat (map (\<lambda>l. LF # l) ?ls)"
  have sp: "is_space LF" by (simp add: is_space_def)
  have b1: "?body \<noteq> []" by (simp add: header_def)
  have b2: "\<not> is_space (hd ?body)" by (simp add: header_def is_space_def)
  have b3: "\<not> is_space (last ?body)"
  proof (cases "pairs = []")
    case True
    then show ?thesis by (simp add: header_def is_space_def)
  next
    case False
    then have ne: "?ls \<noteq> []" by simp
    have "well_shaped (last pairs)" using assms False by simp
    then have "line_of (last pairs) \<noteq> []" "\<not> is_space (last (line_of (last pairs)))"
      using line_of_props by blast+
    moreover have "last ?ls = line_of (last pairs)" using False by (simp add: last_map)
    ultimately show ?thesis using last_concat_lines [OF ne, of header LF] by simp
  qed
  have "trim (save_content pairs) = ?body"
    unfolding save_content_body using sp b1 b2 b3 by (rule trim_snoc)
  moreover have "split_on LF ?body = header # ?ls"
  proof (rule split_on_lines)
    show "LF \<notin> set header" by (simp add: header_def)
    show "\<forall>l\<in>set ?ls. LF \<notin> set l" using assms line_of_props(4) by auto
  qed
  ultimately have "drop 1 (split_on LF (trim (save_content pairs))) = ?ls" by simp
  moreover have "map (\<lambda>line. split_tabs (trim line)) ?ls = map row_of_pair pairs"
    using assms line_of_props(5) by simp
  ultimately show ?thesis by simp
qed

lemma readFileSync_save:
  "readFileSync (save E localeFolder pairs) (path_join E [localeFolder, ''_redirects.txt''])
     = Inr (save_content pairs)"
  by (simp add: readFileSync_def save_def Let_def)

lemma valid_well_shaped:
  assumes valid: "validatePairs E' (map row_of_pair pairs) strict = Inr ()"
    and tgt: "\<forall>p\<in>set pairs. TAB \<notin> set (snd p) \<and> LF \<notin> set (snd p) \<and> \<not> is_space (last (snd p))"
    and p: "p \<in> set pairs"
  shows "well_shaped p"
proof -
  have "row_of_pair p \<in> set (map row_of_pair pairs)" using p by simp
  then obtain f t where ft: "field (row_of_pair p) 0 = Some f" "field (row_of_pair p) 1 = Some t"
    "validateFromURL E' f False = Inr ()" "validateToURL E' t False strict = Inr ()"
    using validatePairs_each [OF valid] by blast
  have f: "f = fst p" and t: "t = snd p" using ft(1,2) by (simp_all add: field_def row_of_pair_def)
  have 1: "fst p \<noteq> [] \<and> hd (fst p) = CHR ''/'' \<and> TAB \<notin> set (fst p) \<and> LF \<notin> set (fst p)"
    using validateFromURL_shape [OF ft(3)] f by simp
  then have 2: "\<not> is_space (hd (fst p))" by (simp add: is_space_def)
  have 3: "snd p \<noteq> []" using validateToURL_nonempty [OF ft(4)] t by simp
  show ?thesis unfolding well_shaped_def using 1 2 3 tgt p by blast
qed

lemma round_trip:
  assumes valid: "validatePairs (save E localeFolder pairs) (map row_of_pair pairs) strict = Inr ()"
    and st: "strict \<longrightarrow> errorOnEncoded (save E localeFolder pairs) (map row_of_pair pairs) = Inr ()
                  \<and> errorOnDuplicated (map row_of_pair pairs) = Inr ()"
    and tgt: "\<forall>p\<in>set pairs. TAB \<notin> set (snd p) \<and> LF \<notin> set (snd p) \<and> \<not> is_space (last (snd p))"
  shows "loadPairsFromFile (save E localeFolder pairs)
           (path_join E [localeFolder, ''_redirects.txt'']) strict
         = Inr (map row_of_pair pairs)"
proof -
  have "\<forall>p\<in>set pairs. well_shaped p" using valid_well_shaped [OF valid tgt] by blast
  then have parse: "map (\<lambda>line. split_tabs (trim line))
      (drop 1 (split_on LF (trim (save_content pairs)))) = map row_of_pair pairs"
    by (rule parse_save_content)
  show ?thesis
    unfolding loadPairsFromFile_def readFileSync_save Let_def
    using parse valid st by (cases strict) simp_all
qed

lemma split_on_nonempty: "split_on c s \<noteq> []"
  by (induction s) (auto split: list.splits)


subsection \<open>Running shortCuts on its own output\<close>

lemma sortTuples_le:
  "sortTuples (Some a, Some b) (Some c, Some d) \<le> 0 \<longleftrightarrow> (a, b) \<le> (c, d)"
  by (auto simp: sortTuples_def js_gt_def js_lt_def less_eq_prod_def)

lemma sort_insert_Some:
  "sort_insert sortTuples (map_prod Some Some x) (map (map_prod Some Some) ys)
     = map (map_prod Some Some) (insort x ys)"
proof (induction ys)
  case Nil
  then show ?case by simp
next
  case (Cons y ys)
  obtain a b where x: "x = (a, b)" by (cases x)
  obtain c d where y: "y = (c, d)" by (cases y)
  have "sortTuples (map_prod Some Some x) (map_prod Some Some y) \<le> 0 \<longleftrightarrow> x \<le> y"
    unfolding x y by (simp add: sortTuples_le)
  then show ?case using Cons.IH by simp
qed

lemma Array_sort_Some:
  "Array_sort sortTuples (map (map_prod Some Some) xs) = map (map_prod Some Some) (sort xs)"
proof (induction xs)
  case Nil
  then show ?case by (simp add: Array_sort_def)
next
  case (Cons x xs)
  have "Array_sort sortTuples (map (map_prod Some Some) (x # xs))
      = sort_insert sortTuples (map_prod Some Some x) (Array_sort sortTuples (map (map_prod Some Some) xs))"
    by (simp add: Array_sort_def)
  also have "\<dots> = sort_insert sortTuples (map_prod Some Some x) (map (map_prod Some Some) (sort xs))"
    by (simp only: Cons.IH)
  also have "\<dots> = map (map_prod Some Some) (insort x (sort xs))"
    by (rule sort_insert_Some)
  finally show ?case by (simp add: sort_key_def)
qed

lemma walks_direct:
  assumes "\<forall>e\<in>set xs. transit g throws (fst e) [] = Walked [fst e] (snd e)"
    and "distinct (map fst (acc @ xs))"
  shows "walks g throws xs (acc, c) = Inr (acc @ xs, c)"
  using assms
proof (induction xs arbitrary: acc)
  case Nil
  then show ?case by simp
next
  case (Cons x xs)
  obtain k v where x: "x = (k, v)" by (cases x)
  have step: "transit g throws k [] = Walked [k] v" using Cons.prems(1) x by simp
  have fresh: "k \<notin> fst ` set acc" using Cons.prems(2) x by auto
  have d: "distinct (map fst ((acc @ [(k, v)]) @ xs))" using Cons.prems(2) x by simp
  have "walks g throws xs (acc @ [(k, v)], c) = Inr ((acc @ [(k, v)]) @ xs, c)"
    using Cons.IH [OF _ d] Cons.prems(1) by simp
  then show ?case using step fresh x by (simp add: Map_set_fresh)
qed

lemma transit_one_hop:
  assumes "Map_get g k = Some v" and "v \<noteq> []" and "v \<noteq> k" and "Map_get g v = None"
  shows "transit g throws k [] = Walked [k] v"
proof -
  have "transit g throws v [k] = Walked [k] v"
    using assms(4) by (simp add: transit.simps [of g throws v] truthy_def)
  then show ?thesis
    using assms(1,2,3) by (simp add: transit.simps [of g throws k] truthy_def)
qed

lemma distinct_map_sort:
  fixes xs :: "'a::linorder list"
  shows "distinct (map h (sort xs)) = distinct (map h xs)"
  by (simp add: distinct_map)

lemma casing_consistent:
  assumes own: "\<forall>x\<in>set (occurrences ps). c (toLowerCase x) = Some x"
    and mem: "x \<in> set (occurrences ps)"
  shows "Map_get (casing ps) (toLowerCase x) = Some x"
proof (cases "find (\<lambda>u. toLowerCase u = toLowerCase x) (rev (occurrences ps))")
  case None
  then have "\<forall>u\<in>set (occurrences ps). toLowerCase u \<noteq> toLowerCase x"
    by (simp add: find_None_iff)
  then show ?thesis using mem by blast
next
  case (Some u)
  then have "Map_get (casing ps) (toLowerCase x) = Some u" by (simp add: casing_last_seen)
  then have u: "toLowerCase u = toLowerCase x" "u \<in> set (occurrences ps)"
    using casing_Some by blast+
  have "c (toLowerCase u) = Some u" "c (toLowerCase x) = Some x" using own u(2) mem by blast+
  then have "u = x" using u(1) by (metis option.inject)
  then show ?thesis using Some by (simp add: casing_last_seen)
qed

lemma shortCuts_fixpoint:
  assumes run: "shortCuts pairs throws = Inr out"
  shows "\<exists>ps. out = map (map_prod Some Some) ps \<and> shortCuts ps throws' = Inr out"
proof -
  obtain td c where w: "walks (dg pairs) throws (lowerCasePairs pairs) ([], []) = Inr (td, c)"
    and out: "out = Array_sort sortTuples (mappedPairs pairs td)"
    using shortCuts_unfold [OF run] by blast
  have st: "settled (dg pairs) td" using walks_settled [OF w settled_empty] .
  have d: "distinct (map fst td)" using walks_distinct [OF w] by simp
  define C where "C = Map_get (casing pairs)"
  define R where "R = (\<lambda>e :: pair. (the (C (fst e)), the (C (snd e))))"
  define low where "low = (\<lambda>e :: pair. (toLowerCase (fst e), toLowerCase (snd e)))"
  have node: "\<exists>p. chain (dg pairs) k p v \<and> p \<noteq> []" if kv: "(k, v) \<in> set td" for k v
  proof -
    have "map_of td k = Some v" using kv d by simp
    then show ?thesis using st unfolding settled_def by blast
  qed
  have restored: "C k = Some (fst (R (k, v))) \<and> C v = Some (snd (R (k, v)))
      \<and> toLowerCase (fst (R (k, v))) = k \<and> toLowerCase (snd (R (k, v))) = v"
    if kv: "(k, v) \<in> set td" for k v
  proof -
    obtain p where p: "chain (dg pairs) k p v" "p \<noteq> []" using node [OF kv] by blast
    obtain f t where "C k = Some f" "C v = Some t" "toLowerCase f = k" "toLowerCase t = v"
      using edge_nodes [OF p] unfolding C_def by blast
    then show ?thesis by (simp add: R_def)
  qed
  have lowR: "low (R e) = e" if e: "e \<in> set td" for e
    using restored [of "fst e" "snd e"] e by (simp add: low_def)
  have mp: "mappedPairs pairs td = map (map_prod Some Some) (map R td)"
  proof -
    have "(case e of (from, to) \<Rightarrow> (C from, C to)) = map_prod Some Some (R e)"
      if e: "e \<in> set td" for e
      using restored [of "fst e" "snd e"] e by (cases e) (simp add: R_def)
    then show ?thesis unfolding mappedPairs_def C_def [symmetric] by simp
  qed
  define ps where "ps = sort (map R td)"
  have out_ps: "out = map (map_prod Some Some) ps"
    unfolding out mp ps_def by (rule Array_sort_Some)
  have set_ps: "set ps = R ` set td" by (simp add: ps_def)
  define td' where "td' = lowerCasePairs ps"
  have td'_eq: "td' = map low ps"
    by (simp add: td'_def lowerCasePairs_def low_def case_prod_unfold)
  have set_td': "set td' = set td"
  proof -
    have "set td' = low ` R ` set td" by (simp add: td'_eq set_ps)
    also have "\<dots> = set td" using lowR by (force simp: image_image)
    finally show ?thesis .
  qed
  have d': "distinct (map fst td')"
  proof -
    have "map (\<lambda>e. fst (low (R e))) td = map fst td"
      by (rule map_cong [OF refl]) (simp add: lowR)
    then have "map (fst \<circ> low) (map R td) = map fst td"
      by (simp add: comp_def)
    then have "distinct (map (fst \<circ> low) (map R td))" using d by (simp only:)
    then have "distinct (map (fst \<circ> low) (sort (map R td)))"
      by (simp only: distinct_map_sort)
    then show ?thesis by (simp add: td'_eq ps_def)
  qed
  have g: "dg ps = td'" by (simp add: dg_def td'_def [symmetric] new_Map_distinct [OF d'])
  have hop: "transit td' throws' (fst e) [] = Walked [fst e] (snd e)" if mem: "e \<in> set td'" for e
  proof -
    obtain k v where e: "e = (k, v)" by (cases e)
    have kv: "(k, v) \<in> set td" using mem e set_td' by simp
    obtain p where p: "chain (dg pairs) k p v" "p \<noteq> []" using node [OF kv] by blast
    have 1: "Map_get td' k = Some v" using mem e d' by (simp add: Map_get_def)
    have 2: "v \<noteq> []" using chain_last [OF p] by simp
    have fin: "\<not> truthy (Map_get (dg pairs) v)" using chain_target_terminal [OF p(1)] .
    have "truthy (Map_get (dg pairs) k)" using chain_nonempty_iff [OF p(1)] p(2) by simp
    then have 3: "v \<noteq> k" using fin by auto
    have "v \<notin> fst ` set td'"
    proof
      assume "v \<in> fst ` set td'"
      then obtain v' where "(v, v') \<in> set td" using set_td' by auto
      then obtain q where "chain (dg pairs) v q v'" "q \<noteq> []" using node by blast
      then have "truthy (Map_get (dg pairs) v)" using chain_nonempty_iff by blast
      then show False using fin by simp
    qed
    then have 4: "Map_get td' v = None" by (simp add: Map_get_def map_of_eq_None_iff)
    show ?thesis using transit_one_hop [OF 1 2 3 4] e by simp
  qed
  have w': "walks td' throws' td' ([], []) = Inr (td', [])"
    using walks_direct [of td' td' throws' "[]" "[]"] hop d' by simp
  have own: "\<forall>x\<in>set (occurrences ps). C (toLowerCase x) = Some x"
  proof
    fix x assume "x \<in> set (occurrences ps)"
    then obtain e where e: "e \<in> set td" "x = fst (R e) \<or> x = snd (R e)"
      unfolding occurrences_def using set_ps by auto
    then show "C (toLowerCase x) = Some x"
      using restored [of "fst e" "snd e"] by auto
  qed
  have mp': "mappedPairs ps td' = map (map_prod Some Some) ps"
  proof -
    have "(case low e of (from, to) \<Rightarrow> (Map_get (casing ps) from, Map_get (casing ps) to))
          = map_prod Some Some e" if mem: "e \<in> set ps" for e
    proof -
      have "fst e \<in> set (occurrences ps)" "snd e \<in> set (occurrences ps)"
        using mem unfolding occurrences_def by auto
      then have "Map_get (casing ps) (toLowerCase (fst e)) = Some (fst e)"
        "Map_get (casing ps) (toLowerCase (snd e)) = Some (snd e)"
        using casing_consistent [OF own] by blast+
      then show ?thesis by (cases e) (simp add: low_def)
    qed
    then show ?thesis unfolding mappedPairs_def td'_eq by (simp add: comp_def)
  qed
  have "sort ps = ps" unfolding ps_def by (simp add: sorted_sort_id)
  then have "Array_sort sortTuples (mappedPairs ps td') = out"
    unfolding mp' out_ps by (simp only: Array_sort_Some)
  then have "shortCuts ps throws' = Inr out"
    using w' by (simp add: shortCuts_def shortCuts_console_def g td'_def [symmetric])
  then show ?thesis using out_ps by blast
qed

section \<open>The claims\<close>

subsection \<open>Acyclicity of the flattened output\<close>

text \<open>
  Claim C3. Whenever \<^verbatim>\<open>shortCuts\<close> returns, every pair of its output has both ends
  defined, and the target of the pair, lowercased, differs from the lowercased source of
  every pair of the output: no target has an outgoing edge, so a path of the output graph
  has at most one edge and the graph has no cycle.
\<close>

theorem shortCuts_acyclic:
  assumes "shortCuts pairs throws = Inr out" and "(from, to) \<in> set out"
  shows "\<exists>f t. from = Some f \<and> to = Some t \<and>
           (\<forall>e\<in>set out. \<forall>f'. fst e = Some f' \<longrightarrow> toLowerCase f' \<noteq> toLowerCase t)"
  using assms by (rule acyclic_output)

theorem shortCuts_acyclic_witness:
  "shortCuts [(''/en-US/docs/A'', ''/en-US/docs/B''), (''/en-US/docs/B'', ''/en-US/docs/C'')] False
     = Inr [(Some ''/en-US/docs/A'', Some ''/en-US/docs/C''),
            (Some ''/en-US/docs/B'', Some ''/en-US/docs/C'')]
   \<and> toLowerCase ''/en-US/docs/A'' \<noteq> toLowerCase ''/en-US/docs/C''
   \<and> toLowerCase ''/en-US/docs/B'' \<noteq> toLowerCase ''/en-US/docs/C''"
proof -
  have run: "shortCuts [(''/en-US/docs/A'', ''/en-US/docs/B''), (''/en-US/docs/B'', ''/en-US/docs/C'')] False
     = Inr [(Some ''/en-US/docs/A'', Some ''/en-US/docs/C''),
            (Some ''/en-US/docs/B'', Some ''/en-US/docs/C'')]"
    by code_simp
  have mem: "(Some ''/en-US/docs/A'', Some ''/en-US/docs/C'')
     \<in> set [(Some ''/en-US/docs/A'', Some ''/en-US/docs/C''),
            (Some ''/en-US/docs/B'', Some ''/en-US/docs/C'')]"
    by simp
  show ?thesis using run shortCuts_acyclic [OF run mem] by auto
qed

subsection \<open>Chains are collapsed\<close>



subsection \<open>Cycles\<close>



subsection \<open>The casing that is restored\<close>

text \<open>
  Claim C7 says that \<^verbatim>\<open>casing\<close> keeps the first casing seen of a URL. It does not:
  \<^verbatim>\<open>new Map(entries)\<close> sets the entries in order, so a later entry with the same
  lowercased key replaces the value. With \<^verbatim>\<open>/en-US/docs/Web/X\<close> as the target of the
  first pair and \<^verbatim>\<open>/en-US/docs/web/x\<close> as the target of the second, the map holds the
  second, and both edges of the output point to it.
\<close>

theorem casing_first_seen_counterexample:
  "Map_get (casing [(''/en-US/docs/A'', ''/en-US/docs/Web/X''), (''/en-US/docs/B'', ''/en-US/docs/web/x'')])
       ''/en-us/docs/web/x'' = Some ''/en-US/docs/web/x''
   \<and> first_seen [(''/en-US/docs/A'', ''/en-US/docs/Web/X''), (''/en-US/docs/B'', ''/en-US/docs/web/x'')]
       ''/en-us/docs/web/x'' = Some ''/en-US/docs/Web/X''
   \<and> shortCuts [(''/en-US/docs/A'', ''/en-US/docs/Web/X''), (''/en-US/docs/B'', ''/en-US/docs/web/x'')] False
       = Inr [(Some ''/en-US/docs/A'', Some ''/en-US/docs/web/x''),
              (Some ''/en-US/docs/B'', Some ''/en-US/docs/web/x'')]"
  by code_simp

text \<open>
  Claim C7, amended. \<^verbatim>\<open>casing\<close> maps a lowercased URL to its last casing in the sequence
  of all sources followed by all targets (undefined when the URL does not occur), and
  both ends of every pair of the output are defined and are the last casing of their
  lowercased URL.
\<close>

theorem casing_last_seen_restored:
  "Map_get (casing pairs) k = last_seen pairs k
   \<and> (\<forall>throws out e. shortCuts pairs throws = Inr out \<longrightarrow> e \<in> set out \<longrightarrow>
        (\<exists>f t. e = (Some f, Some t) \<and> last_seen pairs (toLowerCase f) = Some f
           \<and> last_seen pairs (toLowerCase t) = Some t))"
  using restored_last_seen by (simp add: last_seen_def casing_last_seen)

theorem casing_last_seen_restored_witness:
  "\<exists>f t. (Some ''/en-US/docs/A'', Some ''/en-US/docs/web/x'') = (Some f, Some t)
      \<and> last_seen [(''/en-US/docs/A'', ''/en-US/docs/Web/X''), (''/en-US/docs/B'', ''/en-US/docs/web/x'')]
          (toLowerCase f) = Some f
      \<and> last_seen [(''/en-US/docs/A'', ''/en-US/docs/Web/X''), (''/en-US/docs/B'', ''/en-US/docs/web/x'')]
          (toLowerCase t) = Some t"
proof -
  let ?ps = "[(''/en-US/docs/A'', ''/en-US/docs/Web/X''), (''/en-US/docs/B'', ''/en-US/docs/web/x'')]"
  let ?out = "[(Some ''/en-US/docs/A'', Some ''/en-US/docs/web/x''),
              (Some ''/en-US/docs/B'', Some ''/en-US/docs/web/x'')]"
  have run: "shortCuts ?ps False = Inr ?out" by code_simp
  have mem: "(Some ''/en-US/docs/A'', Some ''/en-US/docs/web/x'') \<in> set ?out" by simp
  show ?thesis
    by (rule casing_last_seen_restored [of ?ps, THEN conjunct2, rule_format, OF run mem])
qed

subsection \<open>Two pairs with the same source\<close>




subsection \<open>removeConflictingOldRedirects\<close>

text \<open>
  Claim C8 ends with Scenario C: merging the update \<^verbatim>\<open>X -> Y\<close> into a store that holds
  \<^verbatim>\<open>Z -> X\<close> removes \<^verbatim>\<open>Z -> X\<close>. The source \<^verbatim>\<open>Z\<close> is not the target \<^verbatim>\<open>Y\<close> of the
  update, so the pair is kept.
\<close>

theorem stale_redirect_counterexample:
  "removeConflictingOldRedirects [(''/en-US/docs/Z'', ''/en-US/docs/X'')]
       [(''/en-US/docs/X'', ''/en-US/docs/Y'')]
     = [(''/en-US/docs/Z'', ''/en-US/docs/X'')]"
  by code_simp

text \<open>
  Claim C8, amended. \<^verbatim>\<open>removeConflictingOldRedirects(old, updates)\<close> returns the pairs
  of \<open>old\<close> whose source, lowercased, is not the lowercase of a target of \<open>updates\<close>,
  in their order. Merging the update \<^verbatim>\<open>X -> Y\<close> into a store that holds \<^verbatim>\<open>y -> Z\<close>
  removes \<^verbatim>\<open>y -> Z\<close>; a store that holds \<^verbatim>\<open>Z -> X\<close> keeps it.
\<close>

theorem removeConflictingOldRedirects_filter:
  "removeConflictingOldRedirects old updates
     = filter (\<lambda>p. toLowerCase (fst p) \<notin> toLowerCase ` snd ` set updates) old
   \<and> removeConflictingOldRedirects [(''/en-US/docs/y'', ''/en-US/docs/Z'')]
       [(''/en-US/docs/X'', ''/en-US/docs/Y'')] = []
   \<and> removeConflictingOldRedirects [(''/en-US/docs/Z'', ''/en-US/docs/X'')]
       [(''/en-US/docs/X'', ''/en-US/docs/Y'')]
     = [(''/en-US/docs/Z'', ''/en-US/docs/X'')]"
proof (intro conjI)
  have "set (map (\<lambda>(from, to). toLowerCase to) updates) = toLowerCase ` snd ` set updates"
    by (auto simp: image_image case_prod_unfold)
  then show "removeConflictingOldRedirects old updates
     = filter (\<lambda>p. toLowerCase (fst p) \<notin> toLowerCase ` snd ` set updates) old"
    by (cases old) (simp_all add: removeConflictingOldRedirects_def Let_def case_prod_unfold)
qed code_simp+

subsection \<open>Idempotence\<close>

text \<open>
  Claim C2. \<^verbatim>\<open>shortCuts\<close> without \<^verbatim>\<open>throws\<close> always returns, and whenever
  \<^verbatim>\<open>shortCuts\<close> returns (in either mode), its output is a list of pairs with both ends
  defined on which \<^verbatim>\<open>shortCuts\<close> (in either mode) returns the same list again: the same
  pairs, in the same order, with the same casing.
\<close>

theorem shortCuts_idempotent:
  "(\<exists>out. shortCuts pairs False = Inr out)
   \<and> (shortCuts pairs throws = Inr out \<longrightarrow>
        (\<exists>ps. out = map (map_prod Some Some) ps \<and> shortCuts ps throws' = Inr out))"
  using shortCuts_False_returns [of pairs] shortCuts_fixpoint [of pairs throws out throws']
  by blast

theorem shortCuts_idempotent_witness:
  "\<exists>ps. [(Some ''/en-US/docs/A'', Some ''/en-US/docs/C''),
          (Some ''/en-US/docs/B'', Some ''/en-US/docs/C'')] = map (map_prod Some Some) ps
      \<and> shortCuts ps False = Inr [(Some ''/en-US/docs/A'', Some ''/en-US/docs/C''),
                                    (Some ''/en-US/docs/B'', Some ''/en-US/docs/C'')]"
proof -
  have run: "shortCuts [(''/en-US/docs/A'', ''/en-US/docs/B''), (''/en-US/docs/B'', ''/en-US/docs/C'')] False
     = Inr [(Some ''/en-US/docs/A'', Some ''/en-US/docs/C''),
            (Some ''/en-US/docs/B'', Some ''/en-US/docs/C'')]"
    by code_simp
  show ?thesis
    by (rule shortCuts_idempotent [THEN conjunct2, rule_format, OF run])
qed

subsection \<open>validateLocale\<close>

text \<open>
  Claim C5 says that \<^verbatim>\<open>validateLocale\<close> throws when reloading, merging the empty update,
  flattening and (with \<^verbatim>\<open>strict\<close>) dropping orphans would change the table. The code
  computes \<^verbatim>\<open>changed\<close> as \<^verbatim>\<open>simplifiedPairs == pairs\<close>, the identity of two arrays
  that are never the same array, so \<^verbatim>\<open>changed\<close> is false whenever
  \<^verbatim>\<open>loadLocaleAndAdd\<close> returns, and \<^verbatim>\<open>validateLocale\<close> is silent whenever
  \<^verbatim>\<open>loadLocaleAndAdd\<close> does not throw: also on a table that flattening changes.
\<close>

theorem validateLocale_never_flags:
  "(loadLocaleAndAdd E loc updatePairs fix = Inr r \<longrightarrow> \<not> result_changed r)
   \<and> (loadLocaleAndAdd E loc [] strict = Inr r' \<longrightarrow> validateLocale E loc strict = Inr ())"
  using loadLocaleAndAdd_unchanged [of E loc updatePairs "fix" r]
    validateLocale_silent [of E loc strict r']
  by blast

theorem validateLocale_never_flags_witness:
  "loadPairsFromFile chain_env ''/content/en-us/_redirects.txt'' False
     = Inr [[''/en-US/docs/A'', ''/en-US/docs/B''], [''/en-US/docs/B'', ''/en-US/docs/C'']]
   \<and> loadLocaleAndAdd chain_env ''en-US'' [] True
     = Inr \<lparr>result_pairs = [(''/en-US/docs/A'', ''/en-US/docs/C''),
                              (''/en-US/docs/B'', ''/en-US/docs/C'')],
            result_root = ''/content'', result_changed = False\<rparr>
   \<and> validateLocale chain_env ''en-US'' True = Inr ()"
proof -
  have table: "loadPairsFromFile chain_env ''/content/en-us/_redirects.txt'' False
     = Inr [[''/en-US/docs/A'', ''/en-US/docs/B''], [''/en-US/docs/B'', ''/en-US/docs/C'']]"
    by code_simp
  have run: "loadLocaleAndAdd chain_env ''en-US'' [] True
     = Inr \<lparr>result_pairs = [(''/en-US/docs/A'', ''/en-US/docs/C''),
                              (''/en-US/docs/B'', ''/en-US/docs/C'')],
            result_root = ''/content'', result_changed = False\<rparr>"
    by code_simp
  have "validateLocale chain_env ''en-US'' True = Inr ()"
    by (rule validateLocale_never_flags [THEN conjunct2, rule_format, OF run])
  then show ?thesis using table run by simp
qed

subsection \<open>The strict flag of the loader and the existence of targets\<close>



subsection \<open>Round trip through the file\<close>

text \<open>
  Claim C9 says that saving a valid pair set and loading the file gives the same pairs.
  The loader trims every line, so a target that ends in white space comes back without
  it: the pair \<^verbatim>\<open>/en-US/docs/A\<close>, \<^verbatim>\<open>/en-US/docs/B \<close> (with a final space, the document
  of that name existing) passes the decoding, duplicate and validation checks with the
  existence check, has no tab and no newline, and is read back, without \<^verbatim>\<open>strict\<close>, as
  \<^verbatim>\<open>/en-US/docs/A\<close>, \<^verbatim>\<open>/en-US/docs/B\<close>; with \<^verbatim>\<open>strict\<close> the load throws, since no
  document \<^verbatim>\<open>/en-US/docs/B\<close> exists.
\<close>

theorem round_trip_counterexample:
  "validatePairs
     (save (scenario_env [(''/content/en-us/b /index.html'', ''B'')]) ''/content/en-us''
        [(''/en-US/docs/A'', ''/en-US/docs/B '')])
     [[''/en-US/docs/A'', ''/en-US/docs/B '']] True = Inr ()
   \<and> errorOnEncoded
     (save (scenario_env [(''/content/en-us/b /index.html'', ''B'')]) ''/content/en-us''
        [(''/en-US/docs/A'', ''/en-US/docs/B '')])
     [[''/en-US/docs/A'', ''/en-US/docs/B '']] = Inr ()
   \<and> errorOnDuplicated [[''/en-US/docs/A'', ''/en-US/docs/B '']] = Inr ()
   \<and> TAB \<notin> set ''/en-US/docs/A'' \<and> LF \<notin> set ''/en-US/docs/A''
   \<and> TAB \<notin> set ''/en-US/docs/B '' \<and> LF \<notin> set ''/en-US/docs/B ''
   \<and> loadPairsFromFile
     (save (scenario_env [(''/content/en-us/b /index.html'', ''B'')]) ''/content/en-us''
        [(''/en-US/docs/A'', ''/en-US/docs/B '')])
     ''/content/en-us/_redirects.txt'' False
     = Inr [[''/en-US/docs/A'', ''/en-US/docs/B'']]
   \<and> loadPairsFromFile
     (save (scenario_env [(''/content/en-us/b /index.html'', ''B'')]) ''/content/en-us''
        [(''/en-US/docs/A'', ''/en-US/docs/B '')])
     ''/content/en-us/_redirects.txt'' True
     = Inl (To_must_resolve_to_file ''/en-US/docs/B'')"
  by code_simp

text \<open>
  Claim C9, amended. For pairs that pass \<^verbatim>\<open>validatePairs\<close> (and, with \<^verbatim>\<open>strict\<close>, the
  decoding and duplicate checks) in the file system that holds the saved file, and whose
  targets contain no tab, no newline and do not end in a white-space character, loading
  the file that \<^verbatim>\<open>save\<close> wrote gives the same sequence of pairs.
\<close>

theorem save_load_round_trip:
  assumes "validatePairs (save E localeFolder pairs) (map row_of_pair pairs) strict = Inr ()"
    and "strict \<longrightarrow> errorOnEncoded (save E localeFolder pairs) (map row_of_pair pairs) = Inr ()
                  \<and> errorOnDuplicated (map row_of_pair pairs) = Inr ()"
    and "\<forall>p\<in>set pairs. TAB \<notin> set (snd p) \<and> LF \<notin> set (snd p) \<and> \<not> is_space (last (snd p))"
  shows "loadPairsFromFile (save E localeFolder pairs)
           (path_join E [localeFolder, ''_redirects.txt'']) strict
         = Inr (map row_of_pair pairs)"
  using assms by (rule round_trip)

theorem save_load_round_trip_witness:
  "loadPairsFromFile
     (save (scenario_env [(''/content/en-us/b/index.html'', ''B'')]) ''/content/en-us''
        [(''/en-US/docs/A'', ''/en-US/docs/B''), (''/en-US/docs/C'', ''https://example.com/c'')])
     (path_join (scenario_env [(''/content/en-us/b/index.html'', ''B'')])
        [''/content/en-us'', ''_redirects.txt'']) True
   = Inr (map row_of_pair
        [(''/en-US/docs/A'', ''/en-US/docs/B''), (''/en-US/docs/C'', ''https://example.com/c'')])"
proof -
  let ?E = "scenario_env [(''/content/en-us/b/index.html'', ''B'')]"
  let ?ps = "[(''/en-US/docs/A'', ''/en-US/docs/B''), (''/en-US/docs/C'', ''https://example.com/c'')]"
  have valid: "validatePairs (save ?E ''/content/en-us'' ?ps) (map row_of_pair ?ps) True = Inr ()"
    by code_simp
  have checks: "True \<longrightarrow> errorOnEncoded (save ?E ''/content/en-us'' ?ps) (map row_of_pair ?ps) = Inr ()
                  \<and> errorOnDuplicated (map row_of_pair ?ps) = Inr ()"
    by code_simp
  have shape: "\<forall>p\<in>set ?ps. TAB \<notin> set (snd p) \<and> LF \<notin> set (snd p) \<and> \<not> is_space (last (snd p))"
    by (simp add: is_space_def)
  show ?thesis by (rule save_load_round_trip [OF valid checks shape])
qed

end
